theory Spec2Isabelle
  imports Complex_Main "HOL-Library.Log_Nat" "HOL-Library.Word"
begin

chapter \<open>Lookup tables for a twelve-bit converter\<close>

text \<open>
  The repository holds three scripts. \<^verbatim>\<open>generate.py\<close> builds a sine, a sawtooth and a
  triangle table and three tables from audio files; \<^verbatim>\<open>Practical_4/generate_LUT_vals.py\<close>
  builds the three synthetic tables for 128 samples; \<^verbatim>\<open>Practical_4/wav_LUT_vals.py\<close>
  is written to build tables from audio files with the \<^verbatim>\<open>wave\<close> module, but does not
  compile. The definitions below follow the scripts statement by statement; the theorems
  after them settle the properties stated of the tables.
\<close>

section \<open>Binary floating point as the interpreter rounds it\<close>

text \<open>
  NumPy computes the tables in IEEE 754 binary64 (and binary32 for float32 sample data).
  A finite float is a rational; every arithmetic operation returns the exact result rounded
  to the nearest float with \<open>p\<close> significant bits, ties to the even significand.
  The exponent range is left unbounded: all magnitudes that occur here lie far inside the
  normal range of both formats. Exact rational arithmetic would not describe the program:
  for 123 samples the sawtooth entry 41 is 1364, although 41 * 4095 / 123 = 1365.
\<close>

definition rne :: "rat \<Rightarrow> int" where
  "rne q = (let f = \<lfloor>q\<rfloor>; d = q - of_int f
            in if d < 1 / 2 then f else if 1 / 2 < d then f + 1
               else if even f then f else f + 1)"

definition expo :: "rat \<Rightarrow> int" where
  "expo x = (let (a, b) = quotient_of \<bar>x\<bar>; e = bitlen a - bitlen b
             in if 2 powi e \<le> \<bar>x\<bar> then e else e - 1)"

definition rnd :: "nat \<Rightarrow> rat \<Rightarrow> rat" where
  "rnd p x = (if x = 0 then 0
              else let u = 2 powi (expo x - (int p - 1)) in of_int (rne (x / u)) * u)"

definition f64 :: "rat \<Rightarrow> rat" where
  "f64 = rnd 53"

definition f32 :: "rat \<Rightarrow> rat" where
  "f32 = rnd 24"

text \<open>
  \<^verbatim>\<open>.astype(int)\<close> is the C conversion of a double to a 64-bit integer: it drops the
  fraction (rounds toward zero); outside the 64-bit range the x86-64 conversion yields the
  most negative integer.
\<close>

definition trunc :: "rat \<Rightarrow> int" where
  "trunc x = (if 0 \<le> x then \<lfloor>x\<rfloor> else \<lceil>x\<rceil>)"

definition astype_int :: "rat \<Rightarrow> int" where
  "astype_int x = (let t = trunc x
                   in if - (2 ^ 63) \<le> t \<and> t < 2 ^ 63 then t else - (2 ^ 63))"

section \<open>The NumPy operations the scripts call\<close>

text \<open>
  The exceptions that the two \<^verbatim>\<open>try\<close> blocks catch: the file cannot be opened or read,
  the \<^verbatim>\<open>ValueError\<close> raised for an unsupported sample width, a \<^verbatim>\<open>ValueError\<close> of NumPy
  (a buffer that is no whole number of samples, a reduction or interpolation over an empty
  array), a division by zero, and an index out of range.
\<close>

datatype error =
    SourceUnavailable
  | UnsupportedSampleWidth nat
  | ValueError
  | ZeroDivisionError
  | IndexError

text \<open>What the scripts print, as far as the properties below speak of it.\<close>

datatype event =
    Processing string
  | Sample_rate int
  | Original_samples nat
  | Data_type_of string
  | Converted_to_mono
  | Resampled_to nat
  | Value_range int int
  | Error_processing string error
  | Using_placeholder
  | Failed string error

text \<open>\<^verbatim>\<open>np.pi\<close> is the double nearest to \<open>\<pi>\<close>.\<close>

definition np_pi :: rat where
  "np_pi = 884279719003555 / 281474976710656"

text \<open>
  \<^verbatim>\<open>np.linspace(start, stop, num, endpoint)\<close>: the bounds are converted to doubles,
  the step is \<open>delta / div\<close>, sample \<open>i\<close> is \<open>i * step + start\<close> with a rounding after
  each operation, and with \<open>endpoint\<close> the last sample is overwritten by \<open>stop\<close>.
\<close>

definition linspace :: "rat \<Rightarrow> rat \<Rightarrow> nat \<Rightarrow> bool \<Rightarrow> rat list" where
  "linspace start stop num endpoint =
     (let d = (if endpoint then int num - 1 else int num);
          delta = f64 (f64 stop - f64 start);
          y = (if 0 < d then
                 (let step = f64 (delta / f64 (of_int d))
                  in if step = 0
                     then map (\<lambda>i. f64 (f64 (f64 (of_nat i) / f64 (of_int d)) * delta)) [0..<num]
                     else map (\<lambda>i. f64 (f64 (of_nat i) * step)) [0..<num])
               else map (\<lambda>i. f64 (f64 (of_nat i) * delta)) [0..<num]);
          y' = map (\<lambda>v. f64 (v + f64 start)) y
      in if endpoint \<and> 1 < num then y'[num - 1 := f64 stop] else y')"

text \<open>With \<^verbatim>\<open>dtype=int\<close> the samples are floored before the conversion.\<close>

definition linspace_int :: "rat \<Rightarrow> rat \<Rightarrow> nat \<Rightarrow> int list" where
  "linspace_int start stop num = map (\<lambda>v. astype_int (of_int \<lfloor>v\<rfloor>)) (linspace start stop num True)"

text \<open>
  \<^verbatim>\<open>np.interp(x, xp, fp)\<close> for increasing \<open>xp\<close>: outside the range the end values, at a
  sample point or in the last cell the stored value, otherwise
  \<open>slope * (x - xp[j]) + fp[j]\<close>. The bisection of the C code returns the number of
  sample points not above \<open>x\<close>, less one.
\<close>

definition interp_at :: "rat list \<Rightarrow> rat list \<Rightarrow> rat \<Rightarrow> rat" where
  "interp_at xp fp x =
     (if last xp < x then last fp
      else if x < hd xp then hd fp
      else let j = length (takeWhile (\<lambda>a. a \<le> x) xp) - 1
           in if j = length xp - 1 then fp ! j
              else if xp ! j = x then fp ! j
              else let slope = f64 (f64 (fp ! (j + 1) - fp ! j) / f64 (xp ! (j + 1) - xp ! j))
                   in f64 (f64 (slope * f64 (x - xp ! j)) + fp ! j))"

definition interp :: "rat list \<Rightarrow> rat list \<Rightarrow> rat list \<Rightarrow> error + rat list" where
  "interp x xp fp =
     (if xp = [] then Inl ValueError
      else if length fp \<noteq> length xp then Inl ValueError
      else Inr (map (interp_at xp fp) x))"

definition clip :: "int \<Rightarrow> int \<Rightarrow> int list \<Rightarrow> int list" where
  "clip lo hi xs = map (\<lambda>v. min (max v lo) hi) xs"

text \<open>The slice \<^verbatim>\<open>a[::k]\<close> for a positive step.\<close>

fun stride :: "nat \<Rightarrow> 'a list \<Rightarrow> 'a list" where
  "stride k [] = []"
| "stride k (x # xs) = x # stride k (drop (k - 1) xs)"

text \<open>Fancy indexing \<^verbatim>\<open>a[indices]\<close>: negative indices count from the end.\<close>

definition take_indices :: "'a list \<Rightarrow> int list \<Rightarrow> error + 'a list" where
  "take_indices xs indices =
     (let n = int (length xs)
      in if \<forall>i \<in> set indices. - n \<le> i \<and> i < n
         then Inr (map (\<lambda>i. xs ! nat (if i < 0 then n + i else i)) indices)
         else Inl IndexError)"

section \<open>Practical_4/wav_LUT_vals.py\<close>

text \<open>
  Line 18 of this file, \<^verbatim>\<open>sample_rate = wav_file.getframerate() // 44.1kHz\<close>, is not an
  expression of the language, so the file does not compile and what follows describes no
  run of it. The blocks of \<^verbatim>\<open>process_wav_file\<close> are translated one by one, each as a
  function of the values it reads: the decoding (lines 30 to 41), the channel selection
  (lines 43 to 45), the resampling (lines 47 to 58), the normalisation (lines 60 to 75) and
  the \<^verbatim>\<open>except\<close> clause (lines 83 to 85).
\<close>





definition left_channel :: "nat \<Rightarrow> rat list \<Rightarrow> rat list" where
  "left_channel channels audio_data = (if channels = 2 then stride 2 audio_data else audio_data)"

text \<open>Lines 47 to 58: decimation by an integer step, or tiling.\<close>

definition resample :: "nat \<Rightarrow> rat list \<Rightarrow> error + rat list" where
  "resample target_samples audio_data =
     (if target_samples < length audio_data then
        (if target_samples = 0 then Inl ZeroDivisionError
         else let step = length audio_data div target_samples
              in Inr (take target_samples (stride step audio_data)))
      else if length audio_data < target_samples then
        (if length audio_data = 0 then Inl ZeroDivisionError
         else let repeat_factor = target_samples div length audio_data;
                  remainder = target_samples mod length audio_data;
                  tiled = concat (replicate repeat_factor audio_data)
              in if 0 < remainder then Inr (tiled @ take remainder tiled) else Inr tiled)
      else Inr audio_data)"

text \<open>
  Lines 60 to 75: min-max normalisation to twelve bits. The scaled values lie between 0 and
  4095, where the conversion to \<^verbatim>\<open>uint32\<close> drops the fraction like the one to \<^verbatim>\<open>int\<close>.
\<close>

definition normalize :: "nat \<Rightarrow> rat list \<Rightarrow> error + (rat \<times> rat \<times> int list)" where
  "normalize target_samples audio_data =
     (if audio_data = [] then Inl ValueError
      else let min_val = Min (set audio_data);
               max_val = Max (set audio_data);
               lut_values =
                 (if max_val \<noteq> min_val
                  then map (\<lambda>x. astype_int
                          (f64 (f64 (f64 (x - min_val) / f64 (max_val - min_val)) * 4095)))
                         audio_data
                  else replicate target_samples 2048)
           in Inr (min_val, max_val, clip 0 4095 lut_values))"


section \<open>generate.py\<close>

definition TOTAL_SAMPLES :: nat where
  "TOTAL_SAMPLES = 20000"

definition NUM_WAVEFORMS :: nat where
  "NUM_WAVEFORMS = 6"

definition SAMPLES_PER_WAVEFORM :: nat where
  "SAMPLES_PER_WAVEFORM = TOTAL_SAMPLES div NUM_WAVEFORMS"

definition RESOLUTION :: int where
  "RESOLUTION = 4095"

text \<open>
  The three generators read the module constant \<^verbatim>\<open>RESOLUTION\<close>; here it is their first
  argument \<open>res\<close>, and the script runs them at \<^const>\<open>RESOLUTION\<close>. The sine of the C
  library is not part of the repository: \<open>sn\<close> stands for \<^verbatim>\<open>np.sin\<close> on doubles.
\<close>

definition generate_sine_lut :: "(rat \<Rightarrow> rat) \<Rightarrow> int \<Rightarrow> nat \<Rightarrow> int list" where
  "generate_sine_lut sn res n_samples =
     (let t = linspace 0 (f64 (2 * np_pi)) n_samples False;
          sine = map sn t
      in map (\<lambda>s. astype_int (f64 (f64 (f64 (s + 1) / 2) * f64 (of_int res)))) sine)"

definition generate_sawtooth_lut :: "int \<Rightarrow> nat \<Rightarrow> int list" where
  "generate_sawtooth_lut res n_samples =
     map astype_int (linspace 0 (of_int res) n_samples False)"

definition generate_triangle_lut :: "int \<Rightarrow> nat \<Rightarrow> int list" where
  "generate_triangle_lut res n_samples =
     (let half = n_samples div 2;
          rising = linspace 0 (of_int res) half False;
          falling = linspace (of_int res) 0 (n_samples - half) False
      in map astype_int (rising @ falling))"

text \<open>
  What \<^verbatim>\<open>wavfile.read\<close> returns when it does not raise: the sample rate and an
  array, one-dimensional for a mono file and with one row per frame otherwise, of the
  element type of the file.
\<close>

datatype dtype = UInt8 | Int16 | Int32 | Float32 | Float64

datatype samples = Mono "rat list" | Multi "(rat \<times> rat list) list"

record wav_data =
  rate :: int
  elements :: dtype
  data :: samples

definition dtype_name :: "dtype \<Rightarrow> string" where
  "dtype_name d = (case d of UInt8 \<Rightarrow> ''uint8'' | Int16 \<Rightarrow> ''int16'' | Int32 \<Rightarrow> ''int32''
                   | Float32 \<Rightarrow> ''float32'' | Float64 \<Rightarrow> ''float64'')"

text \<open>
  Lines 57 to 66. The last branch takes every other element type: an int32 array adds one
  in 32 bits and divides in doubles, a float32 array stays in single precision.
\<close>

definition normalize_sample :: "int \<Rightarrow> dtype \<Rightarrow> rat \<Rightarrow> int" where
  "normalize_sample res d x =
     (if d = Int16 then
        astype_int (f64 (f64 (f64 (x + 32768) / 65535) * f64 (of_int res)))
      else if d = UInt8 then
        astype_int (f64 (f64 (x / 255) * f64 (of_int res)))
      else if d = Int32 then
        astype_int (f64 (f64 (of_int (sint (word_of_int (\<lfloor>x\<rfloor> + 1) :: 32 word)) / 2)
                         * f64 (of_int res)))
      else if d = Float32 then
        astype_int (f32 (f32 (f32 (x + 1) / 2) * f32 (of_int res)))
      else
        astype_int (f64 (f64 (f64 (x + 1) / 2) * f64 (of_int res))))"

text \<open>Lines 68 to 77: index selection when the signal is longer, interpolation otherwise.\<close>

definition gen_resample :: "int list \<Rightarrow> nat \<Rightarrow> error + int list" where
  "gen_resample normalized n_samples =
     (if n_samples < length normalized then
        take_indices normalized
          (linspace_int 0 (of_int (int (length normalized) - 1)) n_samples)
      else
        (let x_old = map (\<lambda>i. f64 (of_nat i)) [0..<length normalized];
             x_new = linspace 0 (of_int (int (length normalized) - 1)) n_samples True
         in case interp x_new x_old (map (\<lambda>v. f64 (of_int v)) normalized) of
              Inl e \<Rightarrow> Inl e
            | Inr ys \<Rightarrow> Inr (map astype_int ys)))"

definition gen_body ::
  "int \<Rightarrow> error + wav_data \<Rightarrow> string \<Rightarrow> nat
     \<Rightarrow> event list \<times> (error + int list \<times> int)" where
  "gen_body res opened filepath n_samples =
     (case opened of
        Inl e \<Rightarrow> ([], Inl e)
      | Inr w \<Rightarrow>
          (let out1 = [Processing filepath, Sample_rate (rate w),
                       Original_samples (case data w of Mono xs \<Rightarrow> length xs
                                         | Multi rows \<Rightarrow> length rows),
                       Data_type_of (dtype_name (elements w))];
               (channel, out2) = (case data w of Mono xs \<Rightarrow> (xs, out1)
                                  | Multi rows \<Rightarrow> (map fst rows, out1 @ [Converted_to_mono]));
               normalized = map (normalize_sample res (elements w)) channel
           in case gen_resample normalized n_samples of
                Inl e \<Rightarrow> (out2, Inl e)
              | Inr picked \<Rightarrow>
                  (let resampled = clip 0 res picked;
                       out3 = out2 @ [Resampled_to (length resampled)]
                   in if resampled = [] then (out3, Inl ValueError)
                      else (out3 @ [Value_range (Min (set resampled)) (Max (set resampled))],
                            Inr (resampled, rate w)))))"

text \<open>
  \<^verbatim>\<open>process_wav_file\<close> of this script: on any exception it prints the error and returns
  the sine table with the rate 44100.
\<close>

definition process_wav_file ::
  "(rat \<Rightarrow> rat) \<Rightarrow> int \<Rightarrow> error + wav_data \<Rightarrow> string \<Rightarrow> nat
     \<Rightarrow> event list \<times> int list \<times> int" where
  "process_wav_file sn res opened filepath n_samples =
     (case gen_body res opened filepath n_samples of
        (out, Inr (resampled, sample_rate)) \<Rightarrow> (out, resampled, sample_rate)
      | (out, Inl e) \<Rightarrow>
          (out @ [Error_processing filepath e, Using_placeholder],
           generate_sine_lut sn res n_samples, 44100))"

text \<open>The loop that fills \<^verbatim>\<open>audio_luts\<close>.\<close>

fun audio_luts ::
  "(rat \<Rightarrow> rat) \<Rightarrow> int \<Rightarrow> (string \<Rightarrow> error + wav_data) \<Rightarrow> nat \<Rightarrow> (string \<times> string) list
     \<Rightarrow> event list \<times> (int list \<times> string \<times> int) list" where
  "audio_luts sn res fs n [] = ([], [])"
| "audio_luts sn res fs n ((filepath, name) # rest) =
     (let (out, lut, sr) = process_wav_file sn res (fs filepath) filepath n;
          (outs, luts) = audio_luts sn res fs n rest
      in (out @ outs, (lut, name, sr) # luts))"

section \<open>Practical_4/generate_LUT_vals.py\<close>

text \<open>The module constants \<^verbatim>\<open>N\<close> and \<^verbatim>\<open>max_val\<close> and the three arrays built from them.\<close>

definition LUT_N :: nat where
  "LUT_N = 128"

definition LUT_max_val :: int where
  "LUT_max_val = 4095"

definition LUT_sine :: "(rat \<Rightarrow> rat) \<Rightarrow> int list" where
  "LUT_sine sn =
     map (\<lambda>x. astype_int (f64 (f64 (f64 (sn x + 1) / 2) * f64 (of_int LUT_max_val))))
       (linspace 0 (f64 (2 * np_pi)) LUT_N False)"

definition LUT_saw :: "int list" where
  "LUT_saw = map astype_int (linspace 0 (of_int LUT_max_val) LUT_N False)"

definition LUT_triangle :: "int list" where
  "LUT_triangle =
     map astype_int (linspace 0 (of_int LUT_max_val) (LUT_N div 2) False
                     @ linspace (of_int LUT_max_val) 0 (LUT_N div 2) False)"

chapter \<open>Properties\<close>

section \<open>Rounding to the nearest float\<close>

lemma rne_of_int [simp]: "rne (of_int k) = k"
  by (simp add: rne_def)

lemma rne_lower: "\<lfloor>q\<rfloor> \<le> rne q"
  by (simp add: rne_def Let_def)

lemma rne_upper: "rne q \<le> \<lfloor>q\<rfloor> + 1"
  by (simp add: rne_def Let_def)

lemma rne_mono: assumes "x \<le> y" shows "rne x \<le> rne y"
proof (cases "\<lfloor>x\<rfloor> = \<lfloor>y\<rfloor>")
  case True
  with assms show ?thesis by (auto simp: rne_def Let_def)
next
  case False
  with assms have "\<lfloor>x\<rfloor> < \<lfloor>y\<rfloor>" using floor_mono[OF assms] by linarith
  then have "rne x \<le> \<lfloor>y\<rfloor>" using rne_upper[of x] by linarith
  then show ?thesis using rne_lower[of y] by linarith
qed

lemma rne_err: "\<bar>of_int (rne q) - q\<bar> \<le> 1 / 2"
proof -
  define f where "f = \<lfloor>q\<rfloor>"
  define d where "d = q - of_int f"
  have d: "0 \<le> d" "d < 1" unfolding d_def f_def by linarith+
  have q: "q = of_int f + d" by (simp add: d_def)
  have r: "rne q = (if d < 1 / 2 then f else if 1 / 2 < d then f + 1
               else if even f then f else f + 1)"
    by (simp add: rne_def Let_def d_def f_def)
  show ?thesis unfolding r using d q by (auto simp: abs_le_iff)
qed

lemma rne_minus: "rne (- q) = - rne q"
proof (cases "q \<in> \<int>")
  case True
  then obtain k where "q = of_int k" by (auto elim: Ints_cases)
  then show ?thesis by (simp flip: of_int_minus)
next
  case False
  define f where "f = \<lfloor>q\<rfloor>"
  define d where "d = q - of_int f"
  have d: "0 \<le> d" "d < 1" unfolding d_def f_def by linarith+
  have "d \<noteq> 0" using False unfolding d_def by (metis Ints_of_int eq_iff_diff_eq_0)
  have "q \<noteq> of_int \<lfloor>q\<rfloor>" using False by (metis Ints_of_int)
  then have f': "\<lfloor>- q\<rfloor> = - f - 1"
    by (simp add: floor_minus ceiling_altdef f_def)
  have d': "- q - of_int (- f - 1) = 1 - d" by (simp add: d_def)
  have r: "rne q = (if d < 1 / 2 then f else if 1 / 2 < d then f + 1
               else if even f then f else f + 1)"
    by (simp add: rne_def Let_def d_def f_def)
  have r': "rne (- q) = (if 1 - d < 1 / 2 then - f - 1 else if 1 / 2 < 1 - d then - f
               else if even (- f - 1) then - f - 1 else - f)"
    unfolding rne_def Let_def f' d' by simp
  show ?thesis unfolding r r' using d \<open>d \<noteq> 0\<close> by auto
qed

lemma bitlen_rat_bounds:
  assumes "0 < a"
  shows "2 powi (bitlen a - 1) \<le> (of_int a :: rat)" "(of_int a :: rat) < 2 powi (bitlen a)"
proof -
  from bitlen_bounds[OF assms] have l: "2 ^ nat (bitlen a - 1) \<le> a" and u: "a < 2 ^ nat (bitlen a)"
    by auto
  have ge: "1 \<le> bitlen a" using assms bitlen_eq_zero_iff[of a] bitlen_nonneg[of a] by linarith
  have "(of_int (2 ^ nat (bitlen a - 1)) :: rat) \<le> of_int a" using l by (simp only: of_int_le_iff)
  then show "2 powi (bitlen a - 1) \<le> (of_int a :: rat)"
    using ge by (simp add: power_int_nonneg_exp)
  have "(of_int a :: rat) < of_int (2 ^ nat (bitlen a))" using u by (simp only: of_int_less_iff)
  then show "(of_int a :: rat) < 2 powi (bitlen a)"
    using ge by (simp add: power_int_nonneg_exp)
qed

lemma two_powi_pos [simp]: "0 < (2::rat) powi e"
  by (simp add: zero_less_power_int)

lemma two_powi_Suc: "(2::rat) powi (e + 1) = 2 * 2 powi e"
  by (simp add: power_int_add)

lemma two_powi_pred: "(2::rat) powi (e - 1) = 2 powi e / 2"
  by (simp add: power_int_diff)

lemma expo_bounds:
  assumes "x \<noteq> 0"
  shows "2 powi expo x \<le> \<bar>x\<bar>" "\<bar>x\<bar> < 2 powi (expo x + 1)"
proof -
  obtain a b where q: "quotient_of \<bar>x\<bar> = (a, b)" by (cases "quotient_of \<bar>x\<bar>")
  have b: "0 < b" using quotient_of_denom_pos[OF q] .
  have x: "\<bar>x\<bar> = of_int a / of_int b" using quotient_of_div[OF q] .
  have "0 < \<bar>x\<bar>" using assms by simp
  then have a: "0 < a" using b unfolding x by (simp add: zero_less_divide_iff)
  define A :: rat where "A = 2 powi (bitlen a - 1)"
  define B :: rat where "B = 2 powi (bitlen b - 1)"
  have AB: "0 < A" "0 < B" by (simp_all add: A_def B_def)
  have a1: "A \<le> of_int a" and a2: "of_int a < 2 * A"
    using bitlen_rat_bounds[OF a] by (simp_all add: A_def two_powi_pred)
  have b1: "B \<le> of_int b" and b2: "of_int b < 2 * B"
    using bitlen_rat_bounds[OF b] by (simp_all add: B_def two_powi_pred)
  define e where "e = bitlen a - bitlen b"
  have e: "2 powi e = A / B" unfolding e_def A_def B_def
    by (simp add: power_int_diff)
  have bpos: "(0::rat) < of_int b" using b by simp
  have up: "\<bar>x\<bar> < 2 * (A / B)"
  proof -
    have "of_int a * B < (2 * A) * of_int b"
      using a2 b1 AB bpos a by (intro mult_less_le_imp_less) auto
    then show ?thesis unfolding x using AB bpos by (simp add: field_simps)
  qed
  have lo: "A / B / 2 < \<bar>x\<bar>"
  proof -
    have "A * of_int b < of_int a * (2 * B)"
      using a1 b2 AB bpos a by (intro mult_le_less_imp_less) auto
    then show ?thesis unfolding x using AB bpos by (simp add: field_simps)
  qed
  have ex: "expo x = (if 2 powi e \<le> \<bar>x\<bar> then e else e - 1)"
    by (simp add: expo_def q e_def Let_def)
  show "2 powi expo x \<le> \<bar>x\<bar>" using lo unfolding ex by (auto simp: two_powi_pred e)
  show "\<bar>x\<bar> < 2 powi (expo x + 1)" using up unfolding ex by (auto simp: two_powi_Suc two_powi_pred e)
qed

lemma two_powi_less_iff: "(2::rat) powi a < 2 powi b \<longleftrightarrow> a < b"
proof
  assume l: "(2::rat) powi a < 2 powi b"
  show "a < b"
  proof (rule ccontr)
    assume "\<not> a < b"
    then have "b \<le> a" by simp
    then have "(2::rat) powi b \<le> 2 powi a" by (intro power_int_increasing) auto
    with l show False by simp
  qed
next
  assume "a < b"
  then show "(2::rat) powi a < 2 powi b" by (intro power_int_strict_increasing) auto
qed

lemma two_powi_le_iff: "(2::rat) powi a \<le> 2 powi b \<longleftrightarrow> a \<le> b"
  using two_powi_less_iff[of b a] by (simp add: not_less [symmetric])

lemma expo_unique:
  assumes "2 powi e \<le> \<bar>x\<bar>" "\<bar>x\<bar> < 2 powi (e + 1)"
  shows "expo x = e"
proof -
  have "0 < \<bar>x\<bar>" using assms(1) two_powi_pos[of e] by (rule less_le_trans[rotated])
  then have "x \<noteq> 0" by simp
  from expo_bounds[OF this] assms
  have "(2::rat) powi e < 2 powi (expo x + 1)" "(2::rat) powi expo x < 2 powi (e + 1)"
    by linarith+
  then show ?thesis unfolding two_powi_less_iff by linarith
qed

lemma expo_minus [simp]: "expo (- x) = expo x"
  by (simp add: expo_def)

lemma expo_mono:
  assumes "0 < x" "x \<le> y"
  shows "expo x \<le> expo y"
proof -
  have "(2::rat) powi expo x < 2 powi (expo y + 1)"
    using expo_bounds[of x] expo_bounds[of y] assms by auto
  then show ?thesis unfolding two_powi_less_iff by linarith
qed

lemma rnd_0 [simp]: "rnd p 0 = 0"
  by (simp add: rnd_def)

lemma rnd_minus: "rnd p (- x) = - rnd p x"
  by (simp add: rnd_def Let_def rne_minus)

lemma rnd_pos_eq:
  assumes "0 < x"
  shows "rnd p x = of_int (rne (x / 2 powi (expo x - int p + 1))) * 2 powi (expo x - int p + 1)"
proof -
  have e: "expo x - (int p - 1) = expo x - int p + 1" by simp
  show ?thesis unfolding rnd_def Let_def e using assms by simp
qed

lemma quot_bounds:
  assumes "0 < x" and that: "0 < p"
  shows "2 ^ (p - 1) \<le> x / 2 powi (expo x - int (p - 1))"
    and "x / 2 powi (expo x - int (p - 1)) < 2 ^ p"
proof -
  from expo_bounds[of x] assms have b: "2 powi expo x \<le> x" "x < 2 powi (expo x + 1)" by auto
  have u: "(2::rat) powi (expo x - int (p - 1)) = 2 powi expo x / 2 ^ (p - 1)"
    by (simp add: power_int_diff)
  have pp: "(2::rat) ^ p = 2 * 2 ^ (p - 1)" using that by (cases p) auto
  show "2 ^ (p - 1) \<le> x / 2 powi (expo x - int (p - 1))"
    unfolding u using b(1) by (simp add: field_simps)
  have "x < 2 * 2 powi expo x" using b(2) by (simp add: two_powi_Suc)
  then show "x / 2 powi (expo x - int (p - 1)) < 2 ^ p"
    unfolding u pp by (simp add: field_simps)
qed

lemma rnd_pos_bounds:
  assumes "0 < x" "0 < p"
  shows "2 powi expo x \<le> rnd p x" "rnd p x \<le> 2 powi (expo x + 1)"
proof -
  define u :: rat where "u = 2 powi (expo x - int (p - 1))"
  have u0: "0 < u" by (simp add: u_def)
  have ip: "expo x - int p + 1 = expo x - int (p - 1)" using assms(2) by (simp add: of_nat_diff)
  have r: "rnd p x = of_int (rne (x / u)) * u" unfolding u_def rnd_pos_eq[OF assms(1)] ip ..
  from quot_bounds[OF assms(1) assms(2)] have q: "2 ^ (p - 1) \<le> x / u" "x / u < 2 ^ p"
    by (simp_all add: u_def)
  have "rne (of_int (2 ^ (p - 1))) \<le> rne (x / u)" using q(1) by (intro rne_mono) simp
  then have l: "(2::rat) ^ (p - 1) \<le> of_int (rne (x / u))"
    unfolding rne_of_int by (metis of_int_le_iff of_int_numeral of_int_power)
  have "rne (x / u) \<le> rne (of_int (2 ^ p))" using q(2) by (intro rne_mono) simp
  then have h: "of_int (rne (x / u)) \<le> (2::rat) ^ p"
    unfolding rne_of_int by (metis of_int_le_iff of_int_numeral of_int_power)
  have ue: "u * 2 ^ (p - 1) = 2 powi expo x" by (simp add: u_def power_int_diff)
  have pp: "(2::rat) ^ p = 2 * 2 ^ (p - 1)" using assms(2) by (cases p) auto
  have "u * 2 ^ (p - 1) \<le> u * of_int (rne (x / u))" using l u0 by (intro mult_left_mono) auto
  then show "2 powi expo x \<le> rnd p x" unfolding r ue by (simp add: mult.commute)
  have "u * of_int (rne (x / u)) \<le> u * 2 ^ p" using h u0 by (intro mult_left_mono) auto
  also have "\<dots> = 2 powi (expo x + 1)" unfolding pp two_powi_Suc using ue by simp
  finally show "rnd p x \<le> 2 powi (expo x + 1)" unfolding r by (simp add: mult.commute)
qed

lemma rnd_nonneg: "0 \<le> x \<Longrightarrow> 0 \<le> rnd p x"
proof -
  assume "0 \<le> x"
  then have "0 \<le> x / 2 powi (expo x - (int p - 1))" by simp
  then have "rne 0 \<le> rne (x / 2 powi (expo x - (int p - 1)))" by (rule rne_mono)
  then have "0 \<le> rne (x / 2 powi (expo x - (int p - 1)))" using rne_of_int[of 0] by simp
  then show ?thesis by (simp add: rnd_def Let_def)
qed

lemma rnd_mono_pos:
  assumes "0 < x" "x \<le> y" "0 < p"
  shows "rnd p x \<le> rnd p y"
proof (cases "expo x = expo y")
  case True
  have y: "0 < y" using assms by simp
  define u :: rat where "u = 2 powi (expo y - int p + 1)"
  have u0: "0 < u" by (simp add: u_def)
  have "x / u \<le> y / u" using assms(2) u0 by (simp add: divide_right_mono)
  then have "rne (x / u) \<le> rne (y / u)" by (rule rne_mono)
  then have "of_int (rne (x / u)) * u \<le> of_int (rne (y / u)) * u"
    using u0 by (intro mult_right_mono) auto
  then show ?thesis unfolding rnd_pos_eq[OF assms(1)] rnd_pos_eq[OF y] True u_def .
next
  case False
  have y: "0 < y" using assms by simp
  from False expo_mono[OF assms(1,2)] have "expo x + 1 \<le> expo y" by simp
  then have "(2::rat) powi (expo x + 1) \<le> 2 powi expo y" by (simp add: two_powi_le_iff)
  then show ?thesis
    using rnd_pos_bounds(2)[OF assms(1,3)] rnd_pos_bounds(1)[OF y assms(3)] by linarith
qed

lemma rnd_mono:
  assumes "x \<le> y" "0 < p"
  shows "rnd p x \<le> rnd p y"
proof -
  consider "0 < x" | "x \<le> 0" "0 \<le> y" | "y < 0" by linarith
  then show ?thesis
  proof cases
    case 1
    then show ?thesis using rnd_mono_pos assms by simp
  next
    case 2
    have "0 \<le> rnd p (- x)" using 2 by (intro rnd_nonneg) simp
    then have "rnd p x \<le> 0" by (simp add: rnd_minus)
    then show ?thesis using rnd_nonneg[OF 2(2), of p] by linarith
  next
    case 3
    have "rnd p (- y) \<le> rnd p (- x)" using 3 assms by (intro rnd_mono_pos) auto
    then show ?thesis by (simp add: rnd_minus)
  qed
qed

lemma rnd_exact_pos:
  assumes "0 < m" "m < 2 ^ p"
  shows "rnd p (of_int m * 2 powi k) = of_int m * 2 powi k"
proof -
  define x :: rat where "x = of_int m * 2 powi k"
  have x0: "0 < x" using assms(1) by (simp add: x_def)
  from expo_bounds[of x] x0 have b: "2 powi expo x \<le> x" by auto
  have "of_int m < (of_int (2 ^ p) :: rat)" using assms(2) by (simp only: of_int_less_iff)
  then have "x < 2 ^ p * 2 powi k" unfolding x_def by (simp)
  also have "\<dots> = 2 powi (int p + k)" by (simp add: power_int_add)
  finally have "(2::rat) powi expo x < 2 powi (int p + k)" using b by simp
  then have lt: "expo x < int p + k" by (simp add: two_powi_less_iff)
  define j where "j = nat (k - (expo x - int p + 1))"
  have j: "int j = k - (expo x - int p + 1)" using lt by (simp add: j_def)
  have "x / 2 powi (expo x - int p + 1) = of_int m * 2 powi (k - (expo x - int p + 1))"
    unfolding x_def by (simp add: power_int_diff)
  also have "\<dots> = of_int (m * 2 ^ j)" unfolding j[symmetric] by simp
  finally have q: "x / 2 powi (expo x - int p + 1) = of_int (m * 2 ^ j)" .
  have "rnd p x = of_int (m * 2 ^ j) * 2 powi (expo x - int p + 1)"
    unfolding rnd_pos_eq[OF x0] q rne_of_int ..
  also have "\<dots> = x" using q[symmetric] by simp
  finally show ?thesis unfolding x_def .
qed

lemma rnd_exact:
  assumes "\<bar>m\<bar> < 2 ^ p"
  shows "rnd p (of_int m * 2 powi k) = of_int m * 2 powi k"
proof -
  consider "m = 0" | "0 < m" | "m < 0" by linarith
  then show ?thesis
  proof cases
    case 1 then show ?thesis by simp
  next
    case 2 then show ?thesis using assms by (intro rnd_exact_pos) auto
  next
    case 3
    then have "rnd p (of_int (- m) * 2 powi k) = of_int (- m) * 2 powi k"
      using assms by (intro rnd_exact_pos) auto
    then show ?thesis by (simp add: rnd_minus)
  qed
qed

lemma rnd_of_int:
  assumes "\<bar>m\<bar> \<le> 2 ^ p" "0 < p"
  shows "rnd p (of_int m) = of_int m"
proof (cases "\<bar>m\<bar> = 2 ^ p")
  case False
  then have "\<bar>m\<bar> < 2 ^ p" using assms by simp
  from rnd_exact[OF this, of 0] show ?thesis by simp
next
  case True
  have one: "\<bar>1::int\<bar> < 2 ^ p" using assms(2) by simp
  have a: "rnd p (2 ^ p) = 2 ^ p" using rnd_exact[OF one, of "int p"] by simp
  from True have "m = 2 ^ p \<or> m = - (2 ^ p)" by linarith
  then show ?thesis using a by (auto simp: rnd_minus)
qed

lemma rnd_err_ulp:
  assumes "0 < x"
  shows "\<bar>rnd p x - x\<bar> \<le> 2 powi (expo x - int p + 1) / 2"
proof -
  define u :: rat where "u = 2 powi (expo x - int p + 1)"
  have u0: "0 < u" by (simp add: u_def)
  have r: "rnd p x = of_int (rne (x / u)) * u" unfolding u_def rnd_pos_eq[OF assms] ..
  have "rnd p x - x = (of_int (rne (x / u)) - x / u) * u" unfolding r using u0
    by (simp add: field_simps)
  then have "\<bar>rnd p x - x\<bar> = \<bar>of_int (rne (x / u)) - x / u\<bar> * u"
    using u0 by (simp add: abs_mult)
  also have "\<dots> \<le> (1 / 2) * u" using rne_err[of "x / u"] u0 by (intro mult_right_mono) auto
  finally show ?thesis unfolding u_def by simp
qed

lemma rne_near_even:
  assumes "of_int M - 1 / 2 \<le> q" "q \<le> of_int M" "even M"
  shows "rne q = M"
proof (cases "q = of_int M")
  case True
  then show ?thesis by simp
next
  case False
  then have lt: "q < of_int M" using assms(2) by simp
  have f: "\<lfloor>q\<rfloor> = M - 1" using assms(1) lt by (intro floor_unique) auto
  have odd: "odd (M - 1)" using assms(3) by simp
  have d: "1 / 2 \<le> q - of_int (M - 1)" using assms(1) by simp
  show ?thesis unfolding rne_def Let_def f using d odd by auto
qed

lemma rnd_err:
  assumes "0 < p"
  shows "\<bar>rnd p x - x\<bar> \<le> \<bar>x\<bar> / 2 ^ p"
proof -
  have pos: "\<bar>rnd p x - x\<bar> \<le> x / 2 ^ p" if x0: "0 < x" for x
  proof -
    define u :: rat where "u = 2 powi (expo x - int p + 1)"
    have u0: "0 < u" by (simp add: u_def)
    have r: "rnd p x = of_int (rne (x / u)) * u" unfolding u_def rnd_pos_eq[OF x0] ..
    have "rnd p x - x = (of_int (rne (x / u)) - x / u) * u" unfolding r using u0
      by (simp add: field_simps)
    then have "\<bar>rnd p x - x\<bar> = \<bar>of_int (rne (x / u)) - x / u\<bar> * u"
      using u0 by (simp add: abs_mult)
    also have "\<dots> \<le> (1 / 2) * u" using rne_err[of "x / u"] u0 by (intro mult_right_mono) auto
    also have "\<dots> = 2 powi expo x / 2 ^ p" by (simp add: u_def power_int_diff power_int_add)
    also have "\<dots> \<le> x / 2 ^ p" using expo_bounds(1)[of x] x0 by (simp add: divide_right_mono)
    finally show ?thesis .
  qed
  consider "x = 0" | "0 < x" | "x < 0" by linarith
  then show ?thesis
  proof cases
    case 1 then show ?thesis by simp
  next
    case 2 then show ?thesis using pos by simp
  next
    case 3
    then have "\<bar>rnd p (- x) - (- x)\<bar> \<le> (- x) / 2 ^ p" by (intro pos) simp
    then show ?thesis using 3 by (simp add: rnd_minus abs_minus_commute)
  qed
qed

lemma rnd_idem:
  assumes "0 < p"
  shows "rnd p (rnd p x) = rnd p x"
proof -
  have pos: "rnd p (rnd p x) = rnd p x" if x0: "0 < x" for x
  proof -
    define u :: rat where "u = 2 powi (expo x - int (p - 1))"
    have u0: "0 < u" by (simp add: u_def)
    have ip: "expo x - int p + 1 = expo x - int (p - 1)" using assms by (simp add: of_nat_diff)
    have r: "rnd p x = of_int (rne (x / u)) * u" unfolding u_def rnd_pos_eq[OF x0] ip ..
    from quot_bounds[OF x0 assms] have q: "2 ^ (p - 1) \<le> x / u" "x / u < 2 ^ p"
      by (simp_all add: u_def)
    have "rne (x / u) \<le> rne (of_int (2 ^ p))" using q(2) by (intro rne_mono) simp
    then have h: "rne (x / u) \<le> 2 ^ p" unfolding rne_of_int .
    have "rne (of_int 0) \<le> rne (x / u)" using q(1) by (intro rne_mono) (simp add: order_trans[rotated])
    then have l: "0 \<le> rne (x / u)" unfolding rne_of_int .
    show ?thesis
    proof (cases "rne (x / u) = 2 ^ p")
      case True
      have one: "\<bar>1::int\<bar> < 2 ^ p" using assms by simp
      have "rnd p x = of_int (2 ^ p) * u" unfolding r True ..
      then have "rnd p x = of_int 1 * 2 powi (int p + (expo x - int (p - 1)))"
        unfolding u_def by (simp add: power_int_add)
      then show ?thesis using rnd_exact[OF one] by simp
    next
      case False
      then have "\<bar>rne (x / u)\<bar> < 2 ^ p" using h l by simp
      then show ?thesis unfolding r u_def by (rule rnd_exact)
    qed
  qed
  consider "x = 0" | "0 < x" | "x < 0" by linarith
  then show ?thesis
  proof cases
    case 1 then show ?thesis by simp
  next
    case 2 then show ?thesis using pos by simp
  next
    case 3
    then have "rnd p (rnd p (- x)) = rnd p (- x)" by (intro pos) simp
    then show ?thesis by (simp add: rnd_minus)
  qed
qed

lemma f64_0 [simp]: "f64 0 = 0"
  by (simp add: f64_def)

lemma f64_minus: "f64 (- x) = - f64 x"
  by (simp add: f64_def rnd_minus)

lemma f64_mono: "x \<le> y \<Longrightarrow> f64 x \<le> f64 y"
  by (simp add: f64_def rnd_mono)

lemma f64_nonneg: "0 \<le> x \<Longrightarrow> 0 \<le> f64 x"
  by (simp add: f64_def rnd_nonneg)

lemma f64_nonpos: "x \<le> 0 \<Longrightarrow> f64 x \<le> 0"
  using f64_mono[of x 0] by simp

lemma f64_idem [simp]: "f64 (f64 x) = f64 x"
  by (simp add: f64_def rnd_idem)

lemma f64_of_int: "\<bar>m\<bar> \<le> 2 ^ 53 \<Longrightarrow> f64 (of_int m) = of_int m"
  by (simp add: f64_def rnd_of_int)

lemma f64_of_nat: "n \<le> 2 ^ 53 \<Longrightarrow> f64 (of_nat n) = of_nat n"
  using f64_of_int[of "int n"] by simp

lemma f64_half_int: "\<bar>m\<bar> < 2 ^ 53 \<Longrightarrow> f64 (of_int m / 2) = of_int m / 2"
  using rnd_exact[of m 53 "- 1"] by (simp add: f64_def power_int_minus)

lemma f64_err: "\<bar>f64 x - x\<bar> \<le> \<bar>x\<bar> / 2 ^ 53"
  unfolding f64_def by (rule rnd_err) simp

lemma f64_one [simp]: "f64 1 = 1"
  using f64_of_int[of 1] by simp

lemma f64_le_int: "x \<le> of_int m \<Longrightarrow> \<bar>m\<bar> \<le> 2 ^ 53 \<Longrightarrow> f64 x \<le> of_int m"
  using f64_mono[of x "of_int m"] by (simp add: f64_of_int)

lemma f64_ge_int: "of_int m \<le> x \<Longrightarrow> \<bar>m\<bar> \<le> 2 ^ 53 \<Longrightarrow> of_int m \<le> f64 x"
  using f64_mono[of "of_int m" x] by (simp add: f64_of_int)

lemma trunc_of_int [simp]: "trunc (of_int m) = m"
  by (simp add: trunc_def)

lemma trunc_mono:
  assumes "x \<le> y"
  shows "trunc x \<le> trunc y"
proof -
  consider "0 \<le> x" | "x < 0" "0 \<le> y" | "y < 0" by linarith
  then show ?thesis
  proof cases
    case 1
    then show ?thesis using assms by (simp add: trunc_def floor_mono)
  next
    case 2
    have "\<lceil>x\<rceil> \<le> 0" using 2(1) by (simp add: ceiling_le_iff)
    moreover have "0 \<le> \<lfloor>y\<rfloor>" using 2(2) by simp
    ultimately have "\<lceil>x\<rceil> \<le> \<lfloor>y\<rfloor>" by linarith
    then show ?thesis using 2 by (simp add: trunc_def)
  next
    case 3
    then show ?thesis using assms by (simp add: trunc_def ceiling_mono)
  qed
qed

lemma astype_int_small: "- (2 ^ 63) \<le> trunc x \<Longrightarrow> trunc x < 2 ^ 63 \<Longrightarrow> astype_int x = trunc x"
  by (simp add: astype_int_def)

lemma astype_int_range:
  assumes "- 1 < x" "x < of_int m + 1" "0 \<le> m" "m < 2 ^ 63"
  shows "0 \<le> astype_int x" "astype_int x \<le> m" "astype_int x = trunc x"
proof -
  have t: "0 \<le> trunc x \<and> trunc x \<le> m"
  proof (cases "0 \<le> x")
    case True
    then have "0 \<le> \<lfloor>x\<rfloor>" "\<lfloor>x\<rfloor> \<le> m" using assms(2) by (simp_all add: floor_le_iff)
    then show ?thesis using True by (simp add: trunc_def)
  next
    case False
    then have "\<lceil>x\<rceil> = 0" using assms(1) by (simp add: ceiling_eq_iff)
    then show ?thesis using False assms(3) by (simp add: trunc_def)
  qed
  then show e: "astype_int x = trunc x" using assms(3,4) by (intro astype_int_small) auto
  show "0 \<le> astype_int x" "astype_int x \<le> m" using t e by auto
qed

subsection \<open>Slices and the resampling of wav_LUT_vals.py\<close>

lemma length_stride: "0 < k \<Longrightarrow> length (stride k xs) = (length xs + k - 1) div k"
proof (induction k xs rule: stride.induct)
  case (1 k)
  then show ?case by simp
next
  case (2 k x xs)
  show ?case
  proof (cases "k - 1 \<le> length xs")
    case True
    have "length (stride k (x # xs)) = Suc ((length xs - (k - 1) + k - 1) div k)"
      using 2 by simp
    also have "length xs - (k - 1) + k - 1 = length xs + 1 - 1" using True 2(2) by simp
    also have "Suc ((length xs + 1 - 1) div k) = (length xs + k) div k"
      using 2(2) by simp
    finally show ?thesis by simp
  next
    case False
    then have "length xs < k" "length xs + k < 2 * k" "0 < k" using 2(2) by simp_all
    then have d: "(length xs + k) div k = 1"
      by (metis add.commute div_add_self1 div_less add_0 less_numeral_extra(3) One_nat_def plus_1_eq_Suc)
    show ?thesis using 2 False d by simp
  qed
qed


lemma stride_ne: "xs \<noteq> [] \<Longrightarrow> stride k xs \<noteq> []"
  by (cases xs) simp_all

lemma length_decimate:
  assumes "0 < n" "n < length xs"
  shows "length (take n (stride (length xs div n) xs)) = n"
proof -
  define k where "k = length xs div n"
  have k: "0 < k" unfolding k_def using assms by (simp add: div_greater_zero_iff)
  have "n * k \<le> length xs" unfolding k_def by (simp add: mult.commute)
  then have "n \<le> length xs div k" using k by (simp add: less_eq_div_iff_mult_less_eq mult.commute)
  also have "\<dots> \<le> (length xs + k - 1) div k" using k by (intro div_le_mono) simp
  finally have "n \<le> length (stride k xs)" using k by (simp add: length_stride)
  then show ?thesis unfolding k_def by simp
qed

lemma length_tile:
  assumes "0 < length xs" "length xs < n"
  shows "length (let tiled = concat (replicate (n div length xs) xs)
                 in if 0 < n mod length xs then tiled @ take (n mod length xs) tiled else tiled) = n"
proof -
  define r where "r = n div length xs"
  have r: "1 \<le> r" unfolding r_def using assms by (simp add: Suc_le_eq div_greater_zero_iff)
  have len: "length (concat (replicate r xs)) = r * length xs"
    by (induction r) simp_all
  have "n mod length xs < length xs" using assms by simp
  also have "\<dots> \<le> r * length xs" using r by simp
  finally have m: "min (r * length xs) (n mod length xs) = n mod length xs" by simp
  have "r * length xs + n mod length xs = n" unfolding r_def by simp
  then show ?thesis unfolding Let_def r_def[symmetric] using len m by auto
qed

lemma resample_length:
  assumes "audio_data \<noteq> []" "0 < n"
  shows "\<exists>ys. resample n audio_data = Inr ys \<and> length ys = n"
proof -
  consider "n < length audio_data" | "length audio_data < n" | "length audio_data = n"
    by linarith
  then show ?thesis
  proof cases
    case 1
    then show ?thesis using assms length_decimate[OF assms(2) 1] by (simp add: resample_def Let_def)
  next
    case 2
    have "0 < length audio_data" using assms by simp
    from length_tile[OF this 2] 2 assms show ?thesis
      by (simp add: resample_def Let_def split: if_splits)
  next
    case 3
    then show ?thesis by (simp add: resample_def)
  qed
qed

lemma resample_same_length: "resample (length audio_data) audio_data = Inr audio_data"
  by (simp add: resample_def)


lemma clip_replicate: "lo \<le> v \<Longrightarrow> v \<le> hi \<Longrightarrow> clip lo hi (replicate n v) = replicate n v"
  by (simp add: clip_def)

lemma length_clip [simp]: "length (clip lo hi xs) = length xs"
  by (simp add: clip_def)

lemma clip_range: "lo \<le> hi \<Longrightarrow> v \<in> set (clip lo hi xs) \<Longrightarrow> lo \<le> v \<and> v \<le> hi"
  by (auto simp: clip_def)

lemma normalize_constant:
  assumes "audio_data \<noteq> []" and "\<forall>x \<in> set audio_data. x = c"
  shows "normalize target_samples audio_data = Inr (c, c, replicate target_samples 2048)"
proof -
  have "set audio_data = {c}" using assms by (cases audio_data) auto
  then have "Min (set audio_data) = c" "Max (set audio_data) = c" by simp_all
  then show ?thesis using assms(1) by (simp add: normalize_def clip_replicate)
qed

subsection \<open>The ramps of linspace\<close>

lemma length_linspace [simp]: "length (linspace a b n e) = n"
  by (simp add: linspace_def Let_def)

lemma f64_eq_0_iff [simp]: "f64 x = 0 \<longleftrightarrow> x = 0"
proof
  assume z: "f64 x = 0"
  show "x = 0"
  proof (rule ccontr)
    assume "x \<noteq> 0"
    then consider "0 < x" | "0 < - x" by linarith
    then show False
    proof cases
      case 1
      from rnd_pos_bounds(1)[OF 1, of 53] have "0 < f64 x"
        unfolding f64_def using two_powi_pos[of "expo x"] by linarith
      with z show False by simp
    next
      case 2
      from rnd_pos_bounds(1)[OF 2, of 53] have "0 < f64 (- x)"
        unfolding f64_def using two_powi_pos[of "expo (- x)"] by linarith
      with z show False by (simp add: f64_minus)
    qed
  qed
qed simp

lemma linspace_rising:
  assumes "0 \<le> res" "res \<le> 2 ^ 53"
  shows "linspace 0 (of_int res) n False
           = map (\<lambda>i. f64 (f64 (of_nat i) * f64 (of_int res / f64 (of_nat n)))) [0..<n]"
proof -
  have r: "f64 (of_int res) = of_int res" using assms by (intro f64_of_int) simp
  show ?thesis
  proof (cases "f64 (of_int res / f64 (of_nat n)) = 0")
    case True
    then have "res = 0 \<or> n = 0" by simp
    then show ?thesis by (auto simp: linspace_def Let_def)
  next
    case False
    then show ?thesis by (cases n) (simp_all add: linspace_def Let_def r)
  qed
qed

lemma linspace_falling:
  assumes "0 \<le> res" "res \<le> 2 ^ 53"
  shows "linspace (of_int res) 0 n False
           = map (\<lambda>i. f64 (of_int res
                           - f64 (f64 (of_nat i) * f64 (of_int res / f64 (of_nat n))))) [0..<n]"
proof -
  have r: "f64 (of_int res) = of_int res" using assms by (intro f64_of_int) simp
  have d: "f64 (- of_int res) = - of_int res" by (simp add: f64_minus r)
  have s: "f64 (- (of_int res / x)) = - f64 (of_int res / x)" for x
    by (simp add: f64_minus)
  have m: "f64 (- (a * b)) = - f64 (a * b)" for a b
    by (simp add: f64_minus)
  show ?thesis
  proof (cases "f64 (of_int res / f64 (of_nat n)) = 0")
    case True
    then have "res = 0 \<or> n = 0" by simp
    then show ?thesis by (auto simp: linspace_def Let_def)
  next
    case False
    then show ?thesis
      by (cases n) (simp_all add: linspace_def Let_def r d s m add.commute)
  qed
qed

lemma ramp_arg_bound:
  assumes "0 \<le> res" "res < 2 ^ 52" "i \<le> n" "0 < n"
  shows "0 \<le> f64 (of_nat i) * f64 (of_int res / f64 (of_nat n))"
    and "f64 (of_nat i) * f64 (of_int res / f64 (of_nat n)) \<le> of_int res + 1 / 2"
proof -
  define a where "a = f64 (of_nat i)"
  define N where "N = f64 (of_nat n)"
  define q where "q = of_int res / N"
  define s where "s = f64 q"
  have a0: "0 \<le> a" unfolding a_def by (intro f64_nonneg) simp
  have aN: "a \<le> N" unfolding a_def N_def using assms(3) by (intro f64_mono) simp
  have "f64 1 \<le> N" unfolding N_def using assms(4) by (intro f64_mono) simp
  then have N1: "1 \<le> N" by simp
  have q0: "0 \<le> q" unfolding q_def using assms(1) N1 by simp
  have s0: "0 \<le> s" unfolding s_def using q0 by (rule f64_nonneg)
  show "0 \<le> f64 (of_nat i) * f64 (of_int res / f64 (of_nat n))"
    unfolding a_def[symmetric] N_def[symmetric] q_def[symmetric] s_def[symmetric]
    using a0 s0 by simp
  have "\<bar>s - q\<bar> \<le> \<bar>q\<bar> / 2 ^ 53" unfolding s_def by (rule f64_err)
  then have sq: "s \<le> q + q / 2 ^ 53" using q0 by linarith
  have "a * s \<le> N * s" using aN s0 by (rule mult_right_mono)
  also have "\<dots> \<le> N * (q + q / 2 ^ 53)" using sq N1 by (intro mult_left_mono) auto
  also have "\<dots> = of_int res + of_int res / 2 ^ 53" unfolding q_def using N1
    by (simp add: field_simps)
  also have "\<dots> \<le> of_int res + 1 / 2"
  proof -
    have "res \<le> 2 ^ 52" using assms(2) by simp
    then have "(of_int res :: rat) \<le> of_int (2 ^ 52)" by (simp only: of_int_le_iff)
    then have "(of_int res :: rat) / 2 ^ 53 \<le> 2 ^ 52 / 2 ^ 53" by (simp add: divide_right_mono)
    then show ?thesis by simp
  qed
  finally show "f64 (of_nat i) * f64 (of_int res / f64 (of_nat n)) \<le> of_int res + 1 / 2"
    unfolding a_def s_def q_def N_def by simp
qed

lemma ramp_bounds:
  assumes "0 \<le> res" "res < 2 ^ 52" "i < n"
  shows "0 \<le> f64 (f64 (of_nat i) * f64 (of_int res / f64 (of_nat n)))"
    and "f64 (f64 (of_nat i) * f64 (of_int res / f64 (of_nat n))) \<le> of_int res + 1 / 2"
proof -
  have i: "i \<le> n" "0 < n" using assms(3) by simp_all
  note b = ramp_arg_bound[OF assms(1,2) i]
  show "0 \<le> f64 (f64 (of_nat i) * f64 (of_int res / f64 (of_nat n)))"
    using b(1) by (rule f64_nonneg)
  have "f64 (of_nat i) * f64 (of_int res / f64 (of_nat n)) \<le> of_int (2 * res + 1) / 2"
    using b(2) by simp
  then have "f64 (f64 (of_nat i) * f64 (of_int res / f64 (of_nat n)))
               \<le> f64 (of_int (2 * res + 1) / 2)" by (rule f64_mono)
  also have "\<dots> = of_int (2 * res + 1) / 2" using assms(1,2) by (intro f64_half_int) simp
  finally show "f64 (f64 (of_nat i) * f64 (of_int res / f64 (of_nat n))) \<le> of_int res + 1 / 2"
    by simp
qed

lemma ramp_mono:
  assumes "0 \<le> res" "i \<le> j" "0 < n"
  shows "f64 (f64 (of_nat i) * f64 (of_int res / f64 (of_nat n)))
           \<le> f64 (f64 (of_nat j) * f64 (of_int res / f64 (of_nat n)))"
proof -
  have "f64 1 \<le> f64 (of_nat n)" using assms(3) by (intro f64_mono) simp
  then have "0 \<le> of_int res / f64 (of_nat n)" using assms(1) by simp
  then have s0: "0 \<le> f64 (of_int res / f64 (of_nat n))" by (rule f64_nonneg)
  have "f64 (of_nat i) \<le> f64 (of_nat j)" using assms(2) by (intro f64_mono) simp
  then have "f64 (of_nat i) * f64 (of_int res / f64 (of_nat n))
               \<le> f64 (of_nat j) * f64 (of_int res / f64 (of_nat n))"
    using s0 by (rule mult_right_mono)
  then show ?thesis by (rule f64_mono)
qed

lemma astype_int_mono:
  assumes "x \<le> y" "- (2 ^ 63) \<le> trunc x" "trunc y < 2 ^ 63"
  shows "astype_int x \<le> astype_int y"
proof -
  have "trunc x \<le> trunc y" using assms(1) by (rule trunc_mono)
  then show ?thesis using assms(2,3) by (simp add: astype_int_def Let_def)
qed

lemma astype_ramp:
  assumes "0 \<le> res" "res < 2 ^ 52" "i < n"
  shows "astype_int (f64 (f64 (of_nat i) * f64 (of_int res / f64 (of_nat n))))
           = \<lfloor>f64 (f64 (of_nat i) * f64 (of_int res / f64 (of_nat n)))\<rfloor>"
    and "0 \<le> astype_int (f64 (f64 (of_nat i) * f64 (of_int res / f64 (of_nat n))))"
    and "astype_int (f64 (f64 (of_nat i) * f64 (of_int res / f64 (of_nat n)))) \<le> res"
proof -
  define v where "v = f64 (f64 (of_nat i) * f64 (of_int res / f64 (of_nat n)))"
  have b: "0 \<le> v" "v \<le> of_int res + 1 / 2" unfolding v_def using ramp_bounds[OF assms] by auto
  have r: "res < 2 ^ 63" using assms(2) by (rule less_trans) simp
  have "- 1 < v" "v < of_int res + 1" using b by auto
  from astype_int_range[OF this assms(1) r]
  show "0 \<le> astype_int (f64 (f64 (of_nat i) * f64 (of_int res / f64 (of_nat n))))"
    and "astype_int (f64 (f64 (of_nat i) * f64 (of_int res / f64 (of_nat n)))) \<le> res"
    unfolding v_def by auto
  have t: "trunc v = \<lfloor>v\<rfloor>" using b(1) by (simp add: trunc_def)
  have f1: "\<lfloor>v\<rfloor> \<le> res" using b(2) by (simp add: floor_le_iff)
  have f0: "0 \<le> \<lfloor>v\<rfloor>" using b(1) by simp
  have a1: "- (2 ^ 63) \<le> trunc v" unfolding t by (rule order_trans[OF _ f0]) simp
  have a2: "trunc v < 2 ^ 63" unfolding t by (rule le_less_trans[OF f1 r])
  have "astype_int v = trunc v" using a1 a2 by (rule astype_int_small)
  then have "astype_int v = \<lfloor>v\<rfloor>" by (simp only: t)
  then show "astype_int (f64 (f64 (of_nat i) * f64 (of_int res / f64 (of_nat n))))
           = \<lfloor>f64 (f64 (of_nat i) * f64 (of_int res / f64 (of_nat n)))\<rfloor>"
    unfolding v_def .
qed

lemma astype_fall:
  assumes "0 \<le> res" "res < 2 ^ 52" "i < n"
  shows "0 \<le> astype_int (f64 (of_int res
                - f64 (f64 (of_nat i) * f64 (of_int res / f64 (of_nat n)))))"
    and "astype_int (f64 (of_int res
                - f64 (f64 (of_nat i) * f64 (of_int res / f64 (of_nat n))))) \<le> res"
proof -
  define v where "v = f64 (f64 (of_nat i) * f64 (of_int res / f64 (of_nat n)))"
  have b: "0 \<le> v" "v \<le> of_int res + 1 / 2" unfolding v_def using ramp_bounds[OF assms] by auto
  have r: "res < 2 ^ 63" using assms(2) by (rule less_trans) simp
  have r53: "\<bar>res\<bar> \<le> 2 ^ 53" using assms(1,2) by simp
  have "of_int (- 1) / 2 \<le> of_int res - v" using b(2) by simp
  then have "f64 (of_int (- 1) / 2) \<le> f64 (of_int res - v)" by (rule f64_mono)
  moreover have "f64 (of_int (- 1) / 2) = of_int (- 1) / 2" by (intro f64_half_int) simp
  ultimately have lo: "- 1 < f64 (of_int res - v)" by simp
  have "of_int res - v \<le> of_int res" using b(1) by simp
  then have "f64 (of_int res - v) \<le> of_int res" using r53 by (rule f64_le_int)
  then have hi: "f64 (of_int res - v) < of_int res + 1" by simp
  from astype_int_range[OF lo hi assms(1) r]
  show "0 \<le> astype_int (f64 (of_int res
                - f64 (f64 (of_nat i) * f64 (of_int res / f64 (of_nat n)))))"
    and "astype_int (f64 (of_int res
                - f64 (f64 (of_nat i) * f64 (of_int res / f64 (of_nat n))))) \<le> res"
    unfolding v_def by auto
qed

lemma sorted_map_upt:
  assumes "\<And>i j. i \<le> j \<Longrightarrow> j < n \<Longrightarrow> f i \<le> (f j :: int)"
  shows "sorted (map f [0..<n])"
  using assms by (auto simp: sorted_iff_nth_mono)

lemma sorted_rev_map_upt:
  assumes "\<And>i j. i \<le> j \<Longrightarrow> j < n \<Longrightarrow> f j \<le> (f i :: int)"
  shows "sorted (rev (map f [0..<n]))"
proof -
  have "sorted_wrt (\<lambda>x y. y \<le> x) (map f [0..<n])"
    using assms by (auto simp: sorted_wrt_iff_nth_less)
  then show ?thesis by (simp add: sorted_wrt_rev)
qed

subsection \<open>Steps of at least one survive rounding and truncation\<close>

lemma expo_less:
  assumes "0 < x" "x < 2 powi e"
  shows "expo x < e"
proof -
  have "(2 :: rat) powi expo x < 2 powi e" using expo_bounds(1)[of x] assms by simp
  then show ?thesis by (simp add: two_powi_less_iff)
qed

lemma f64_succ:
  assumes "0 < x" "x < of_int k" "f64 x = of_int k" "k + 1 \<le> 2 ^ 52"
  shows "f64 (x + 1) = of_int k + 1"
proof -
  define z where "z = x + 1"
  have z0: "0 < z" using assms(1) by (simp add: z_def)
  have "(of_int (k + 1) :: rat) \<le> of_int (2 ^ 52)" using assms(4) by (simp only: of_int_le_iff)
  then have k52: "(of_int k :: rat) + 1 \<le> 2 ^ 52" by simp
  have "z < 2 powi 52" using assms(2) k52 by (simp add: z_def)
  from expo_less[OF z0 this] have e': "expo z \<le> 51" by simp
  define u where "u = (2 :: rat) powi (expo x - 53 + 1)"
  define u' where "u' = (2 :: rat) powi (expo z - 53 + 1)"
  have u0: "0 < u" "0 < u'" by (simp_all add: u_def u'_def)
  have "expo x \<le> expo z" using assms(1) by (intro expo_mono) (simp_all add: z_def)
  then have uu: "u \<le> u'" unfolding u_def u'_def by (simp add: two_powi_le_iff)
  have "\<bar>f64 x - x\<bar> \<le> u / 2" unfolding f64_def u_def using rnd_err_ulp[OF assms(1), of 53] by simp
  then have kx: "of_int k - x \<le> u' / 2" using uu unfolding assms(3) by linarith
  define j where "j = nat (51 - expo z)"
  have j: "int j = 51 - expo z" using e' by (simp add: j_def)
  define M where "M = (k + 1) * 2 * 2 ^ j"
  have inv: "1 / u' = 2 * 2 ^ j"
  proof -
    have "1 / u' = inverse u'" by (simp add: inverse_eq_divide)
    also have "\<dots> = 2 powi (- (expo z - 53 + 1))" unfolding u'_def by (simp only: power_int_minus)
    also have "- (expo z - 53 + 1) = int j + 1" using j by simp
    also have "(2 :: rat) powi (int j + 1) = 2 * 2 ^ j" by (simp add: power_int_add)
    finally show ?thesis .
  qed
  have M: "of_int M = (of_int k + 1) / u'"
  proof -
    have "(of_int k + 1) / u' = (of_int k + 1) * (1 / u')" by simp
    also have "\<dots> = of_int M" unfolding inv M_def by simp
    finally show ?thesis by simp
  qed
  have evenM: "even M" by (simp add: M_def)
  have q: "z / u' = of_int M - (of_int k - x) / u'"
    unfolding M z_def by (simp add: diff_divide_distrib add_divide_distrib)
  have "(of_int k - x) / u' \<le> (u' / 2) / u'" using kx u0(2) by (intro divide_right_mono) simp_all
  then have d1: "(of_int k - x) / u' \<le> 1 / 2" using u0(2) by simp
  have d0: "0 \<le> (of_int k - x) / u'" using assms(2) u0(2) by simp
  have "rne (z / u') = M" using d0 d1 evenM unfolding q by (intro rne_near_even) simp_all
  then have "f64 z = of_int M * u'" unfolding f64_def rnd_pos_eq[OF z0] u'_def by simp
  also have "\<dots> = of_int k + 1" unfolding M using u0(2) by simp
  finally show ?thesis unfolding z_def .
qed

lemma floor_f64_step:
  assumes "0 \<le> x" "x + 1 \<le> y" "y \<le> 2 ^ 52"
  shows "\<lfloor>f64 x\<rfloor> + 1 \<le> \<lfloor>f64 y\<rfloor>"
proof -
  define k where "k = \<lfloor>f64 x\<rfloor>"
  have kf: "of_int k \<le> f64 x" unfolding k_def by simp
  have "x \<le> of_int (2 ^ 52 - 1)" using assms(2,3) by simp
  then have "f64 x \<le> of_int (2 ^ 52 - 1)" by (rule f64_le_int) simp
  with kf have "(of_int k :: rat) \<le> of_int (2 ^ 52 - 1)" by (rule order_trans)
  then have k52: "k + 1 \<le> 2 ^ 52" by simp
  have k0: "0 \<le> k" unfolding k_def using f64_nonneg[OF assms(1)] by simp
  have k53: "\<bar>k + 1\<bar> \<le> 2 ^ 53" "\<bar>k\<bar> \<le> 2 ^ 53" using k0 k52 by simp_all
  have "of_int (k + 1) \<le> f64 y"
  proof (cases "of_int k \<le> x")
    case True
    then have "of_int (k + 1) \<le> y" using assms(2) by simp
    then show ?thesis using k53(1) by (rule f64_ge_int)
  next
    case False
    then have lt: "x < of_int k" by simp
    then have "f64 x \<le> of_int k" using k53(2) by (intro f64_le_int) simp_all
    then have eq: "f64 x = of_int k" using kf by simp
    have "x \<noteq> 0" using lt eq by auto
    then have x0: "0 < x" using assms(1) by simp
    have "f64 (x + 1) = of_int k + 1" using x0 lt eq k52 by (rule f64_succ)
    moreover have "f64 (x + 1) \<le> f64 y" using assms(2) by (rule f64_mono)
    ultimately show ?thesis by simp
  qed
  then have "k + 1 \<le> \<lfloor>f64 y\<rfloor>" by (simp add: le_floor_iff)
  then show ?thesis unfolding k_def .
qed

subsection \<open>The three generators\<close>

lemma sawtooth_eq:
  assumes "0 \<le> res" "res < 2 ^ 52"
  shows "generate_sawtooth_lut res n
           = map (\<lambda>i. astype_int (f64 (f64 (of_nat i) * f64 (of_int res / f64 (of_nat n)))))
               [0..<n]"
proof -
  have "res \<le> 2 ^ 53" using assms(2) by (rule less_imp_le[OF less_trans]) simp
  from linspace_rising[OF assms(1) this] show ?thesis
    by (simp add: generate_sawtooth_lut_def comp_def)
qed

lemma triangle_eq:
  assumes "0 \<le> res" "res < 2 ^ 52"
  shows "generate_triangle_lut res n
           = map (\<lambda>i. astype_int (f64 (f64 (of_nat i) * f64 (of_int res / f64 (of_nat (n div 2))))))
               [0..<n div 2]
             @ map (\<lambda>i. astype_int (f64 (of_int res
                     - f64 (f64 (of_nat i) * f64 (of_int res / f64 (of_nat (n - n div 2)))))))
               [0..<n - n div 2]"
proof -
  have r: "res \<le> 2 ^ 53" using assms(2) by (rule less_imp_le[OF less_trans]) simp
  show ?thesis
    unfolding generate_triangle_lut_def Let_def
      linspace_rising[OF assms(1) r] linspace_falling[OF assms(1) r]
    by (simp add: comp_def)
qed

lemma sine_sample_range:
  assumes "0 \<le> res" "res < 2 ^ 52" "- 1 \<le> s" "s \<le> 1"
  shows "0 \<le> astype_int (f64 (f64 (f64 (s + 1) / 2) * f64 (of_int res)))"
    and "astype_int (f64 (f64 (f64 (s + 1) / 2) * f64 (of_int res))) \<le> res"
proof -
  have r53: "\<bar>res\<bar> \<le> 2 ^ 53" using assms(1,2) by simp
  have r: "f64 (of_int res) = of_int res" using r53 by (rule f64_of_int)
  have r63: "res < 2 ^ 63" using assms(2) by (rule less_trans) simp
  define a where "a = f64 (s + 1)"
  have "of_int 0 \<le> f64 (s + 1)" using assms(3) by (intro f64_ge_int) simp_all
  moreover have "f64 (s + 1) \<le> of_int 2" using assms(4) by (intro f64_le_int) simp_all
  ultimately have a: "0 \<le> a" "a \<le> 2" unfolding a_def by simp_all
  define b where "b = f64 (a / 2)"
  have "of_int 0 \<le> f64 (a / 2)" using a(1) by (intro f64_ge_int) simp_all
  moreover have "f64 (a / 2) \<le> of_int 1" using a(2) by (intro f64_le_int) simp_all
  ultimately have b: "0 \<le> b" "b \<le> 1" unfolding b_def by simp_all
  have "b * of_int res \<le> 1 * of_int res" using b(2) assms(1) by (intro mult_right_mono) simp_all
  then have hi: "f64 (b * of_int res) \<le> of_int res" using r53 by (intro f64_le_int) simp_all
  have lo: "0 \<le> f64 (b * of_int res)" using b(1) assms(1) by (intro f64_nonneg) simp
  have "- 1 < f64 (b * of_int res)" "f64 (b * of_int res) < of_int res + 1" using lo hi by auto
  from astype_int_range[OF this assms(1) r63]
  show "0 \<le> astype_int (f64 (f64 (f64 (s + 1) / 2) * f64 (of_int res)))"
    and "astype_int (f64 (f64 (f64 (s + 1) / 2) * f64 (of_int res))) \<le> res"
    unfolding a_def b_def r by auto
qed

lemma sine_range:
  assumes "0 \<le> res" "res < 2 ^ 52" "\<forall>t. - 1 \<le> sn t \<and> sn t \<le> 1"
    and "v \<in> set (generate_sine_lut sn res n)"
  shows "0 \<le> v \<and> v \<le> res"
proof -
  from assms(4) obtain t where "v = astype_int (f64 (f64 (f64 (sn t + 1) / 2) * f64 (of_int res)))"
    by (auto simp: generate_sine_lut_def Let_def)
  then show ?thesis using sine_sample_range[OF assms(1,2), of "sn t"] assms(3) by simp
qed

lemma sawtooth_range:
  assumes "0 \<le> res" "res < 2 ^ 52" "v \<in> set (generate_sawtooth_lut res n)"
  shows "0 \<le> v \<and> v \<le> res"
proof -
  from assms(3) obtain i where "i < n"
    "v = astype_int (f64 (f64 (of_nat i) * f64 (of_int res / f64 (of_nat n))))"
    unfolding sawtooth_eq[OF assms(1,2)] by auto
  then show ?thesis using astype_ramp(2,3)[OF assms(1,2)] by simp
qed

lemma triangle_range:
  assumes "0 \<le> res" "res < 2 ^ 52" "v \<in> set (generate_triangle_lut res n)"
  shows "0 \<le> v \<and> v \<le> res"
proof -
  from assms(3) consider i where "i < n div 2"
      "v = astype_int (f64 (f64 (of_nat i) * f64 (of_int res / f64 (of_nat (n div 2)))))"
    | i where "i < n - n div 2"
      "v = astype_int (f64 (of_int res
             - f64 (f64 (of_nat i) * f64 (of_int res / f64 (of_nat (n - n div 2))))))"
    unfolding triangle_eq[OF assms(1,2)] by auto
  then show ?thesis
  proof cases
    case 1
    show ?thesis unfolding 1(2) using astype_ramp(2,3)[OF assms(1,2) 1(1)] by blast
  next
    case 2
    show ?thesis unfolding 2(2) using astype_fall[OF assms(1,2) 2(1)] by blast
  qed
qed

lemma length_generators [simp]:
  "length (generate_sine_lut sn res n) = n"
  "length (generate_sawtooth_lut res n) = n"
  "length (generate_triangle_lut res n) = n"
  by (simp_all add: generate_sine_lut_def generate_sawtooth_lut_def generate_triangle_lut_def
        Let_def)

lemma LUT_arrays:
  "LUT_sine sn = generate_sine_lut sn LUT_max_val LUT_N"
  "LUT_saw = generate_sawtooth_lut LUT_max_val LUT_N"
  "LUT_triangle = generate_triangle_lut LUT_max_val LUT_N"
  by (simp_all add: LUT_sine_def LUT_saw_def LUT_triangle_def generate_sine_lut_def
        generate_sawtooth_lut_def generate_triangle_lut_def Let_def LUT_N_def)

lemma pow2_bits:
  assumes "bits \<le> (52 :: nat)"
  shows "(0 :: int) \<le> 2 ^ bits - 1" "(2 :: int) ^ bits - 1 < 2 ^ 52"
proof -
  show "(0 :: int) \<le> 2 ^ bits - 1" by simp
  have "(2 :: int) ^ bits \<le> 2 ^ 52" using assms by (intro power_increasing) simp_all
  then show "(2 :: int) ^ bits - 1 < 2 ^ 52" by linarith
qed

lemma sawtooth_nth:
  assumes "0 \<le> res" "res < 2 ^ 52" "i < n"
  shows "generate_sawtooth_lut res n ! i
           = astype_int (f64 (f64 (of_nat i) * f64 (of_int res / f64 (of_nat n))))"
  unfolding sawtooth_eq[OF assms(1,2)] using assms(3) by simp

lemma sawtooth_first:
  assumes "0 \<le> res" "res < 2 ^ 52" "0 < n"
  shows "generate_sawtooth_lut res n ! 0 = 0"
  unfolding sawtooth_nth[OF assms] by (simp add: astype_int_def trunc_def)

lemma sawtooth_sorted:
  assumes "0 \<le> res" "res < 2 ^ 52"
  shows "sorted (generate_sawtooth_lut res n)"
  unfolding sawtooth_eq[OF assms]
proof (rule sorted_map_upt)
  fix i j assume ij: "i \<le> j" "j < n"
  then have i: "i < n" and n: "0 < n" by simp_all
  have "\<lfloor>f64 (f64 (of_nat i) * f64 (of_int res / f64 (of_nat n)))\<rfloor>
          \<le> \<lfloor>f64 (f64 (of_nat j) * f64 (of_int res / f64 (of_nat n)))\<rfloor>"
    using ramp_mono[OF assms(1) ij(1) n] by (rule floor_mono)
  then show "astype_int (f64 (f64 (of_nat i) * f64 (of_int res / f64 (of_nat n))))
              \<le> astype_int (f64 (f64 (of_nat j) * f64 (of_int res / f64 (of_nat n))))"
    unfolding astype_ramp(1)[OF assms i] astype_ramp(1)[OF assms ij(2)] .
qed

lemma sawtooth_step:
  assumes "0 \<le> res" "res < 2 ^ 52" "int n \<le> res" "Suc i < n"
  shows "astype_int (f64 (f64 (of_nat i) * f64 (of_int res / f64 (of_nat n)))) + 1
           \<le> astype_int (f64 (f64 (of_nat (Suc i)) * f64 (of_int res / f64 (of_nat n))))"
proof -
  define s where "s = f64 (of_int res / f64 (of_nat n))"
  have n0: "0 < n" and i: "i < n" using assms(4) by simp_all
  have "int n < 2 ^ 52" using assms(2,3) by simp
  then have "n < 2 ^ 52" by (metis of_nat_less_numeral_power_cancel_iff)
  then have n53: "n \<le> 2 ^ 53" by (rule less_imp_le[OF less_trans]) simp
  have fn: "f64 (of_nat n) = of_nat n" using n53 by (rule f64_of_nat)
  have fi: "f64 (of_nat i) = of_nat i" using i n53 by (intro f64_of_nat) simp
  have fs: "f64 (of_nat (Suc i)) = of_nat (Suc i)" using assms(4) n53 by (intro f64_of_nat) simp
  have "(of_nat n :: rat) \<le> of_int res" using assms(3) by (metis of_int_le_iff of_int_of_nat_eq)
  then have "1 \<le> of_int res / (of_nat n :: rat)" using n0 by (simp add: le_divide_eq)
  then have "f64 1 \<le> s" unfolding s_def fn by (rule f64_mono)
  then have s1: "1 \<le> s" by simp
  have x0: "0 \<le> of_nat i * s" using s1 by simp
  have step: "of_nat i * s + 1 \<le> of_nat (Suc i) * s" using s1 by (simp add: algebra_simps)
  have "f64 (of_nat (Suc i)) * f64 (of_int res / f64 (of_nat n)) \<le> of_int res + 1 / 2"
    using assms(4) n0 by (intro ramp_arg_bound(2)[OF assms(1,2)]) simp_all
  then have "of_nat (Suc i) * s \<le> of_int res + 1 / 2" unfolding fs s_def .
  moreover have "(of_int res :: rat) + 1 \<le> 2 ^ 52"
  proof -
    have "res + 1 \<le> 2 ^ 52" using assms(2) by simp
    then have "(of_int (res + 1) :: rat) \<le> of_int (2 ^ 52)" by (simp only: of_int_le_iff)
    then show ?thesis by simp
  qed
  ultimately have y52: "of_nat (Suc i) * s \<le> 2 ^ 52" by linarith
  have "\<lfloor>f64 (of_nat i * s)\<rfloor> + 1 \<le> \<lfloor>f64 (of_nat (Suc i) * s)\<rfloor>"
    using x0 step y52 by (rule floor_f64_step)
  moreover have "astype_int (f64 (f64 (of_nat i) * s)) = \<lfloor>f64 (of_nat i * s)\<rfloor>"
    using astype_ramp(1)[OF assms(1,2) i] by (simp only: fi s_def)
  moreover have "astype_int (f64 (f64 (of_nat (Suc i)) * s)) = \<lfloor>f64 (of_nat (Suc i) * s)\<rfloor>"
    using astype_ramp(1)[OF assms(1,2) assms(4)] by (simp only: fs s_def)
  ultimately show ?thesis unfolding s_def by simp
qed

lemma sawtooth_strict:
  assumes "0 \<le> res" "res < 2 ^ 52" "int n \<le> res"
  shows "sorted_wrt (<) (generate_sawtooth_lut res n)"
proof -
  have "Suc i < n \<Longrightarrow> generate_sawtooth_lut res n ! i < generate_sawtooth_lut res n ! Suc i" for i
    using sawtooth_step[OF assms, of i] sawtooth_nth[OF assms(1,2), of i n]
      sawtooth_nth[OF assms(1,2), of "Suc i" n] by simp
  then show ?thesis by (simp add: sorted_wrt_iff_nth_Suc_transp)
qed

lemma triangle_halves:
  "take (n div 2) (generate_triangle_lut res n)
     = map astype_int (linspace 0 (of_int res) (n div 2) False)"
  "drop (n div 2) (generate_triangle_lut res n)
     = map astype_int (linspace (of_int res) 0 (n - n div 2) False)"
  by (simp_all add: generate_triangle_lut_def Let_def)

lemma rising_sorted:
  assumes "0 \<le> res" "res < 2 ^ 52"
  shows "sorted (map astype_int (linspace 0 (of_int res) h False))"
  using sawtooth_sorted[OF assms, of h] by (simp add: generate_sawtooth_lut_def)

lemma fall_value:
  assumes "0 \<le> res" "res < 2 ^ 52" "i < n"
  shows "astype_int (f64 (of_int res
            - f64 (f64 (of_nat i) * f64 (of_int res / f64 (of_nat n)))))
         = trunc (f64 (of_int res
            - f64 (f64 (of_nat i) * f64 (of_int res / f64 (of_nat n)))))"
proof -
  define v where "v = f64 (f64 (of_nat i) * f64 (of_int res / f64 (of_nat n)))"
  have b: "0 \<le> v" "v \<le> of_int res + 1 / 2" unfolding v_def using ramp_bounds[OF assms] by auto
  have r: "res < 2 ^ 63" using assms(2) by (rule less_trans) simp
  have r53: "\<bar>res\<bar> \<le> 2 ^ 53" using assms(1,2) by simp
  have "of_int (- 1) / 2 \<le> of_int res - v" using b(2) by simp
  then have "f64 (of_int (- 1) / 2) \<le> f64 (of_int res - v)" by (rule f64_mono)
  moreover have "f64 (of_int (- 1) / 2) = of_int (- 1) / 2" by (intro f64_half_int) simp
  ultimately have lo: "- 1 < f64 (of_int res - v)" by simp
  have "of_int res - v \<le> of_int res" using b(1) by simp
  then have "f64 (of_int res - v) \<le> of_int res" using r53 by (rule f64_le_int)
  then have hi: "f64 (of_int res - v) < of_int res + 1" by simp
  from astype_int_range(3)[OF lo hi assms(1) r] show ?thesis unfolding v_def .
qed

lemma falling_sorted:
  assumes "0 \<le> res" "res < 2 ^ 52"
  shows "sorted (rev (map astype_int (linspace (of_int res) 0 m False)))"
proof -
  have r: "res \<le> 2 ^ 53" using assms(2) by (rule less_imp_le[OF less_trans]) simp
  have "sorted (rev (map (\<lambda>i. astype_int (f64 (of_int res
             - f64 (f64 (of_nat i) * f64 (of_int res / f64 (of_nat m)))))) [0..<m]))"
  proof (rule sorted_rev_map_upt)
    fix i j assume ij: "i \<le> j" "j < m"
    then have i: "i < m" and m: "0 < m" by simp_all
    have "of_int res - f64 (f64 (of_nat j) * f64 (of_int res / f64 (of_nat m)))
            \<le> of_int res - f64 (f64 (of_nat i) * f64 (of_int res / f64 (of_nat m)))"
      using ramp_mono[OF assms(1) ij(1) m] by simp
    then have "trunc (f64 (of_int res - f64 (f64 (of_nat j) * f64 (of_int res / f64 (of_nat m)))))
            \<le> trunc (f64 (of_int res - f64 (f64 (of_nat i) * f64 (of_int res / f64 (of_nat m)))))"
      by (intro trunc_mono f64_mono)
    then show "astype_int (f64 (of_int res
                  - f64 (f64 (of_nat j) * f64 (of_int res / f64 (of_nat m)))))
            \<le> astype_int (f64 (of_int res
                  - f64 (f64 (of_nat i) * f64 (of_int res / f64 (of_nat m)))))"
      unfolding fall_value[OF assms i] fall_value[OF assms ij(2)] .
  qed
  then show ?thesis unfolding linspace_falling[OF assms(1) r] by (simp add: comp_def)
qed

lemma triangle_peak:
  assumes "0 \<le> res" "res < 2 ^ 52" "0 < n"
  shows "generate_triangle_lut res n ! (n div 2) = res"
proof -
  have m: "0 < n - n div 2" using assms(3) by simp
  have r63: "res < 2 ^ 63" using assms(2) by (rule less_trans) simp
  have r53: "\<bar>res\<bar> \<le> 2 ^ 53" using assms(1,2) by simp
  have a: "astype_int (of_int res) = res"
    using assms(1) r63 by (simp add: astype_int_def)
  have "generate_triangle_lut res n ! (n div 2)
          = astype_int (f64 (of_int res
              - f64 (f64 (of_nat 0) * f64 (of_int res / f64 (of_nat (n - n div 2))))))"
    unfolding triangle_eq[OF assms(1,2)] using m by (simp add: nth_append)
  also have "\<dots> = res" using a by (simp add: f64_of_int[OF r53])
  finally show ?thesis .
qed

lemma sawtooth_entry_41:
  "generate_sawtooth_lut RESOLUTION 123 ! 41 = 1364 \<and> (41 * 4095) div 123 = (1365 :: int)"
proof -
  have res: "0 \<le> RESOLUTION" "RESOLUTION < 2 ^ 52" by (simp_all add: RESOLUTION_def)
  have b: "astype_int (f64 (f64 41 * f64 (4095 / f64 123))) = 1364"
    by code_simp
  show ?thesis using sawtooth_nth[OF res, of 41 123] b by (simp add: RESOLUTION_def)
qed

subsection \<open>Truncated floats are floats\<close>

lemma trunc_minus: "trunc (- x) = - trunc x"
proof -
  consider "x = 0" | "0 < x" | "x < 0" by linarith
  then show ?thesis
    by cases (simp_all add: trunc_def ceiling_minus floor_minus)
qed

lemma rnd_significand:
  assumes "0 < x" "0 < p"
  shows "\<exists>m. rnd p x = of_int m * 2 powi (expo x - int (p - 1)) \<and> 0 \<le> m \<and> m \<le> 2 ^ p"
proof -
  define u :: rat where "u = 2 powi (expo x - int (p - 1))"
  have ip: "expo x - int p + 1 = expo x - int (p - 1)" using assms(2) by (simp add: of_nat_diff)
  have r: "rnd p x = of_int (rne (x / u)) * u" unfolding u_def rnd_pos_eq[OF assms(1)] ip ..
  from quot_bounds[OF assms] have q: "2 ^ (p - 1) \<le> x / u" "x / u < 2 ^ p"
    by (simp_all add: u_def)
  have "rne (x / u) \<le> rne (of_int (2 ^ p))" using q(2) by (intro rne_mono) simp
  then have h: "rne (x / u) \<le> 2 ^ p" unfolding rne_of_int .
  have "rne (of_int 0) \<le> rne (x / u)" using q(1) by (intro rne_mono) (simp add: order_trans[rotated])
  then have l: "0 \<le> rne (x / u)" unfolding rne_of_int .
  show ?thesis using r h l unfolding u_def by blast
qed

lemma f64_trunc_rnd_pos:
  assumes "0 < x" "0 < p" "p \<le> 53"
  shows "f64 (of_int (trunc (rnd p x))) = of_int (trunc (rnd p x))"
proof -
  define k where "k = expo x - int (p - 1)"
  from rnd_significand[OF assms(1,2)] obtain m
    where m: "rnd p x = of_int m * 2 powi k" "0 \<le> m" "m \<le> 2 ^ p" unfolding k_def by blast
  have p53: "(2 :: int) ^ p \<le> 2 ^ 53" using assms(3) by (intro power_increasing) simp_all
  show ?thesis
  proof (cases "0 \<le> k")
    case True
    define j where "j = nat k"
    have kj: "k = int j" using True by (simp add: j_def)
    have y: "rnd p x = of_int (m * 2 ^ j)" unfolding m(1) by (simp add: kj)
    have t: "trunc (rnd p x) = m * 2 ^ j" unfolding y by (rule trunc_of_int)
    have e: "(of_int (m * 2 ^ j) :: rat) = of_int m * 2 powi k" by (simp add: kj)
    show ?thesis
    proof (cases "m = 2 ^ 53")
      case True
      have one: "\<bar>1 :: int\<bar> < 2 ^ 53" by simp
      have "(of_int (m * 2 ^ j) :: rat) = of_int 1 * 2 powi (53 + k)"
        by (simp add: True kj power_int_add)
      then show ?thesis unfolding t f64_def using rnd_exact[OF one, of "53 + k"] by simp
    next
      case False
      then have "\<bar>m\<bar> < 2 ^ 53" using m(2,3) p53 by simp
      then show ?thesis unfolding t e f64_def by (rule rnd_exact)
    qed
  next
    case False
    then have "k \<le> - 1" by simp
    then have "(2 :: rat) powi k \<le> 2 powi (- 1)" by (simp only: two_powi_le_iff)
    then have u: "(2 :: rat) powi k \<le> 1 / 2" by (simp add: power_int_minus_divide)
    have "m \<le> 2 ^ 53" using m(3) p53 by (rule order_trans)
    then have "(of_int m :: rat) \<le> of_int (2 ^ 53)" by (simp only: of_int_le_iff)
    then have m53: "(of_int m :: rat) \<le> 2 ^ 53" by simp
    have m0: "(0 :: rat) \<le> of_int m" using m(2) by simp
    have "(of_int m :: rat) * 2 powi k \<le> 2 ^ 53 * (1 / 2)"
      using m53 u m0 by (intro mult_mono) simp_all
    then have hi: "rnd p x \<le> of_int (2 ^ 52)" unfolding m(1) by simp
    have lo: "0 \<le> rnd p x" unfolding m(1) using m0 by simp
    have "\<lfloor>rnd p x\<rfloor> \<le> \<lfloor>(of_int (2 ^ 52) :: rat)\<rfloor>" using hi by (rule floor_mono)
    then have "\<lfloor>rnd p x\<rfloor> \<le> 2 ^ 52" by (simp only: floor_of_int)
    moreover have "0 \<le> \<lfloor>rnd p x\<rfloor>" using lo by simp
    ultimately have "\<bar>trunc (rnd p x)\<bar> \<le> 2 ^ 53" using lo by (simp add: trunc_def)
    then show ?thesis by (rule f64_of_int)
  qed
qed

lemma f64_trunc_rnd:
  assumes "0 < p" "p \<le> 53"
  shows "f64 (of_int (trunc (rnd p x))) = of_int (trunc (rnd p x))"
proof -
  consider "x = 0" | "0 < x" | "x < 0" by linarith
  then show ?thesis
  proof cases
    case 1
    then show ?thesis by (simp add: trunc_def)
  next
    case 2
    then show ?thesis using assms by (rule f64_trunc_rnd_pos)
  next
    case 3
    then have "0 < - x" by simp
    from f64_trunc_rnd_pos[OF this assms] show ?thesis
      by (simp add: rnd_minus trunc_minus f64_minus)
  qed
qed

lemma astype_int_rnd_is_double:
  assumes "0 < p" "p \<le> 53"
  shows "f64 (of_int (astype_int (rnd p x))) = of_int (astype_int (rnd p x))"
    and "- (2 ^ 63) \<le> astype_int (rnd p x)" and "astype_int (rnd p x) < 2 ^ 63"
proof -
  have one: "\<bar>- 1 :: int\<bar> < 2 ^ 53" by simp
  have big: "f64 (of_int (- (2 ^ 63))) = of_int (- (2 ^ 63))"
    unfolding f64_def using rnd_exact[OF one, of 63] by simp
  show "f64 (of_int (astype_int (rnd p x))) = of_int (astype_int (rnd p x))"
    using f64_trunc_rnd[OF assms, of x] big by (simp add: astype_int_def Let_def)
  show "- (2 ^ 63) \<le> astype_int (rnd p x)" "astype_int (rnd p x) < 2 ^ 63"
    by (simp_all add: astype_int_def Let_def)
qed

lemma normalize_sample_is_double:
  "f64 (of_int (normalize_sample res d x)) = of_int (normalize_sample res d x)
   \<and> - (2 ^ 63) \<le> normalize_sample res d x \<and> normalize_sample res d x < 2 ^ 63"
proof -
  have a: "f64 (of_int (astype_int (f64 z))) = of_int (astype_int (f64 z))
           \<and> - (2 ^ 63) \<le> astype_int (f64 z) \<and> astype_int (f64 z) < 2 ^ 63" for z
    using astype_int_rnd_is_double[of 53 z] by (simp add: f64_def)
  have b: "f64 (of_int (astype_int (f32 z))) = of_int (astype_int (f32 z))
           \<and> - (2 ^ 63) \<le> astype_int (f32 z) \<and> astype_int (f32 z) < 2 ^ 63" for z
    using astype_int_rnd_is_double[of 24 z] by (simp add: f32_def)
  show ?thesis unfolding normalize_sample_def using a b by (simp del: f64_eq_0_iff)
qed

subsection \<open>The resampling of generate.py\<close>

lemma f64_of_int_nat: "n \<le> 2 ^ 53 \<Longrightarrow> f64 (of_int (int n - 1)) = of_int (int n - 1)"
  by (intro f64_of_int) simp

lemma linspace_endpoint_one: "linspace 0 b (Suc 0) True = [0]"
  by (simp add: linspace_def Let_def)

lemma linspace_endpoint:
  assumes "2 \<le> n" "n \<le> 2 ^ 53" "0 < D" "D \<le> 2 ^ 53"
  shows "linspace 0 (of_int D) n True
           = (map (\<lambda>i. f64 (of_nat i * f64 (of_int D / of_int (int n - 1)))) [0..<n])
               [n - 1 := of_int D]"
proof -
  have D: "f64 (of_int D) = of_int D" using assms(3,4) by (intro f64_of_int) simp
  have d: "f64 (rat_of_nat n - 1) = rat_of_nat n - 1"
    using f64_of_int_nat[OF assms(2)] by simp
  have "(0 :: rat) < of_int D" "(0 :: rat) < of_int (int n - 1)" using assms(1,3) by simp_all
  then have "(of_int D :: rat) / of_int (int n - 1) \<noteq> 0" by simp
  then have s: "f64 (of_int D / of_int (int n - 1)) \<noteq> 0" unfolding f64_eq_0_iff .
  have i: "f64 (of_nat i) = of_nat i" if "i < n" for i
    using that assms(2) by (intro f64_of_nat) simp
  have m: "map (\<lambda>x. f64 (f64 (rat_of_nat x) * c)) [0..<n]
             = map (\<lambda>x. f64 (rat_of_nat x * c)) [0..<n]" for c
    by (rule map_cong) (simp_all add: i)
  show ?thesis using assms(1) s by (simp add: linspace_def Let_def D d m comp_def)
qed

lemma linspace_endpoint_range:
  assumes "0 < n" "n < L" "L \<le> 2 ^ 53" "v \<in> set (linspace 0 (of_int (int L - 1)) n True)"
  shows "0 \<le> v \<and> v \<le> of_int (int L - 1)"
proof (cases "n = 1")
  case True
  then show ?thesis using assms by (simp add: linspace_endpoint_one)
next
  case False
  then have n2: "2 \<le> n" using assms(1) by simp
  define D where "D = int L - 1"
  define d :: rat where "d = of_int (int n - 1)"
  define q where "q = of_int D / d"
  define s where "s = f64 q"
  have n53: "n \<le> 2 ^ 53" using assms(2,3) by simp
  have D0: "0 < D" "D \<le> 2 ^ 53" "\<bar>D\<bar> \<le> 2 ^ 53" using assms(1,2,3) by (simp_all add: D_def)
  have d1: "1 \<le> d" using n2 by (simp add: d_def)
  have q0: "0 \<le> q" using D0(1) d1 by (simp add: q_def)
  have s0: "0 \<le> s" unfolding s_def using q0 by (rule f64_nonneg)
  have "\<bar>s - q\<bar> \<le> \<bar>q\<bar> / 2 ^ 53" unfolding s_def by (rule f64_err)
  then have sq: "s \<le> q + q / 2 ^ 53" using q0 by linarith
  have d53: "d - 1 \<le> 2 ^ 53"
  proof -
    have "int n - 1 \<le> 2 ^ 53" using n53 by simp
    then have "(of_int (int n - 1) :: rat) \<le> of_int (2 ^ 53)" by (simp only: of_int_le_iff)
    then show ?thesis by (simp add: d_def)
  qed
  from assms(4) obtain i where i: "i < n"
    "v = (map (\<lambda>i. f64 (of_nat i * s)) [0..<n])[n - 1 := of_int D] ! i"
    unfolding D_def[symmetric] linspace_endpoint[OF n2 n53 D0(1,2)] s_def q_def d_def
    by (auto simp: in_set_conv_nth)
  show ?thesis
  proof (cases "i = n - 1")
    case True
    then show ?thesis using i D0(1) by (simp add: D_def)
  next
    case False
    then have v: "v = f64 (of_nat i * s)" using i by simp
    have id: "of_nat i \<le> d - 1" using False i(1) by (simp add: d_def)
    have "of_nat i * s \<le> (d - 1) * s" using id s0 by (rule mult_right_mono)
    also have "\<dots> \<le> (d - 1) * (q + q / 2 ^ 53)" using sq d1 by (intro mult_left_mono) simp_all
    also have "\<dots> = q * ((d - 1) + (d - 1) / 2 ^ 53)" by (simp add: field_simps)
    also have "\<dots> \<le> q * ((d - 1) + 1)" using q0 d53 by (intro mult_left_mono) simp_all
    also have "\<dots> = of_int D" using d1 by (simp add: q_def)
    finally have "f64 (of_nat i * s) \<le> of_int D" using D0(3) by (rule f64_le_int)
    moreover have "0 \<le> f64 (of_nat i * s)" using s0 by (intro f64_nonneg) simp
    ultimately show ?thesis unfolding v D_def by simp
  qed
qed

lemma astype_int_of_int: "- (2 ^ 63) \<le> k \<Longrightarrow> k < 2 ^ 63 \<Longrightarrow> astype_int (of_int k) = k"
  by (simp add: astype_int_def)

lemma gen_resample_down:
  assumes "0 < n" "n < length normalized" "length normalized \<le> 2 ^ 53"
  shows "\<exists>ys. gen_resample normalized n = Inr ys \<and> length ys = n"
proof -
  define L where "L = length normalized"
  have idx: "- int L \<le> k \<and> k < int L"
    if "k \<in> set (linspace_int 0 (of_int (int L - 1)) n)" for k
  proof -
    from that obtain v where v: "v \<in> set (linspace 0 (of_int (int L - 1)) n True)"
      "k = astype_int (of_int \<lfloor>v\<rfloor>)" by (auto simp: linspace_int_def)
    from linspace_endpoint_range[OF assms(1) _ _ v(1)] assms(2,3)
    have r: "0 \<le> v" "v \<le> of_int (int L - 1)" by (simp_all add: L_def)
    have "\<lfloor>v\<rfloor> \<le> \<lfloor>(of_int (int L - 1) :: rat)\<rfloor>" using r(2) by (rule floor_mono)
    then have f2: "\<lfloor>v\<rfloor> \<le> int L - 1" by (simp only: floor_of_int)
    have f: "0 \<le> \<lfloor>v\<rfloor>" "\<lfloor>v\<rfloor> \<le> int L - 1" using r(1) f2 by simp_all
    have c: "(2 :: int) ^ 53 = 9007199254740992" "(2 :: int) ^ 63 = 9223372036854775808"
      by simp_all
    have "int L \<le> 2 ^ 53" using assms(3) by (simp add: L_def)
    then have "\<lfloor>v\<rfloor> < 2 ^ 63" using f(2) unfolding c by linarith
    moreover have "- (2 ^ 63) \<le> \<lfloor>v\<rfloor>" by (rule order_trans[OF _ f(1)]) simp
    ultimately have "k = \<lfloor>v\<rfloor>" unfolding v(2) by (intro astype_int_of_int)
    then show ?thesis using f by (intro conjI) linarith+
  qed
  have "length (linspace_int 0 (of_int (int L - 1)) n) = n" by (simp add: linspace_int_def)
  then show ?thesis using assms(2) idx
    by (simp add: gen_resample_def take_indices_def Let_def L_def[symmetric])
qed

lemma gen_resample_up:
  assumes "normalized \<noteq> []" "length normalized \<le> n"
  shows "\<exists>ys. gen_resample normalized n = Inr ys \<and> length ys = n"
  using assms by (simp add: gen_resample_def interp_def Let_def)

lemma takeWhile_upt:
  assumes "i < L"
  shows "takeWhile (\<lambda>a. a \<le> (of_nat i :: rat)) (map of_nat [0..<L]) = map of_nat [0..<Suc i]"
proof -
  have split: "[0..<L] = [0..<Suc i] @ [Suc i..<L]"
    using assms upt_add_eq_append[of 0 "Suc i" "L - Suc i"] by simp
  have rest: "takeWhile (\<lambda>a. a \<le> (of_nat i :: rat)) (map of_nat [Suc i..<L]) = []"
    by (cases "Suc i < L") (simp_all add: takeWhile_eq_Nil_iff upt_conv_Cons)
  have "takeWhile (\<lambda>a. a \<le> (of_nat i :: rat)) (map of_nat [0..<Suc i] @ map of_nat [Suc i..<L])
          = map of_nat [0..<Suc i] @ takeWhile (\<lambda>a. a \<le> (of_nat i :: rat)) (map of_nat [Suc i..<L])"
    by (rule takeWhile_append2) auto
  then show ?thesis unfolding rest using split by (metis append_Nil2 map_append)
qed

lemma interp_at_grid:
  assumes "i < L" "length fp = L"
  shows "interp_at (map of_nat [0..<L]) fp (of_nat i) = fp ! i"
proof -
  have ne: "[0..<L] \<noteq> []" using assms(1) by auto
  have l: "last (map of_nat [0..<L]) = (of_nat (L - 1) :: rat)"
    using ne assms(1) by (simp add: last_map last_upt)
  have h: "hd (map of_nat [0..<L]) = (0 :: rat)"
    using ne assms(1) by (simp add: hd_map upt_conv_Cons)
  have a: "\<not> (of_nat (L - 1) :: rat) < of_nat i" using assms(1) by simp
  have j: "length (takeWhile (\<lambda>a. a \<le> (of_nat i :: rat)) (map of_nat [0..<L])) - 1 = i"
    unfolding takeWhile_upt[OF assms(1)] by simp
  show ?thesis unfolding interp_at_def l h j Let_def using a assms(1) by simp
qed

lemma linspace_grid:
  assumes "0 < L" "L \<le> 2 ^ 53"
  shows "linspace 0 (of_int (int L - 1)) L True = map of_nat [0..<L]"
proof (cases "L = 1")
  case True
  then show ?thesis by (simp add: linspace_endpoint_one)
next
  case False
  then have L2: "2 \<le> L" using assms(1) by simp
  have D: "0 < int L - 1" "int L - 1 \<le> 2 ^ 53" using L2 assms(2) by simp_all
  have one: "f64 (of_int (int L - 1) / of_int (int L - 1)) = 1" using L2 by simp
  have i: "f64 (of_nat i) = of_nat i" if "i < L" for i
    using that assms(2) by (intro f64_of_nat) simp
  have m: "map (\<lambda>i. f64 (of_nat i * 1)) [0..<L] = map of_nat [0..<L]" using i by simp
  have "(map of_nat [0..<L])[L - 1 := (of_int (int L - 1) :: rat)] = map of_nat [0..<L]"
    using L2 by (intro nth_equalityI) (auto simp: nth_list_update of_nat_diff)
  then show ?thesis unfolding linspace_endpoint[OF L2 assms(2) D] one m .
qed

lemma gen_resample_same:
  assumes "normalized \<noteq> []" "length normalized \<le> 2 ^ 53"
    and "\<forall>v \<in> set normalized. f64 (of_int v) = of_int v \<and> - (2 ^ 63) \<le> v \<and> v < 2 ^ 63"
  shows "gen_resample normalized (length normalized) = Inr normalized"
proof -
  define L where "L = length normalized"
  define fp where "fp = map (\<lambda>v. f64 (of_int v)) normalized"
  have L: "0 < L" "L \<le> 2 ^ 53" using assms(1,2) by (simp_all add: L_def)
  have xo: "map (\<lambda>i. f64 (of_nat i)) [0..<L] = map of_nat [0..<L]"
    using L(2) by (simp add: f64_of_nat)
  have fpl: "length fp = L" by (simp add: fp_def L_def)
  have "map (interp_at (map of_nat [0..<L]) fp) (map of_nat [0..<L]) = fp"
    using fpl by (intro nth_equalityI) (simp_all add: interp_at_grid)
  then have ip: "interp (map of_nat [0..<L]) (map of_nat [0..<L]) fp = Inr fp"
    using L(1) fpl by (simp add: interp_def)
  have "astype_int (f64 (of_int v)) = v" if "v \<in> set normalized" for v
  proof -
    have v: "f64 (of_int v) = of_int v" "- (2 ^ 63) \<le> v" "v < 2 ^ 63"
      using assms(3) that by blast+
    show ?thesis unfolding v(1) using v(2,3) by (rule astype_int_of_int)
  qed
  then have "map astype_int fp = normalized" unfolding fp_def by (simp add: map_idI)
  then show ?thesis
    unfolding gen_resample_def Let_def L_def[symmetric] fp_def[symmetric] xo
      linspace_grid[OF L] ip by simp
qed

section \<open>The claims about Practical_4/wav_LUT_vals.py\<close>







section \<open>The claims about the synthetic tables\<close>

text \<open>
  C2. For each of the three generators of generate.py and every sample count \<open>n > 0\<close>,
  the table has exactly \<open>n\<close> entries and each entry lies between 0 and \<open>R = 2 ^ bits - 1\<close>
  (the script runs with twelve bits, \<open>R = 4095\<close>); for the sine this needs only that the
  library sine stays within \<open>[-1, 1]\<close>. The three arrays of generate_LUT_vals.py, built for
  its 128 samples, have 128 entries in the same range.
\<close>

theorem lut_length_and_range:
  assumes "0 < n" and "\<forall>t. - 1 \<le> sn t \<and> sn t \<le> 1" and "bits \<le> 52" and "res = 2 ^ bits - 1"
  shows "length (generate_sine_lut sn res n) = n
       \<and> length (generate_sawtooth_lut res n) = n
       \<and> length (generate_triangle_lut res n) = n
       \<and> (\<forall>v \<in> set (generate_sine_lut sn res n). 0 \<le> v \<and> v \<le> res)
       \<and> (\<forall>v \<in> set (generate_sawtooth_lut res n). 0 \<le> v \<and> v \<le> res)
       \<and> (\<forall>v \<in> set (generate_triangle_lut res n). 0 \<le> v \<and> v \<le> res)
       \<and> RESOLUTION = 2 ^ 12 - 1
       \<and> length (LUT_sine sn) = LUT_N \<and> length LUT_saw = LUT_N \<and> length LUT_triangle = LUT_N
       \<and> (\<forall>v \<in> set (LUT_sine sn) \<union> set LUT_saw \<union> set LUT_triangle.
             0 \<le> v \<and> v \<le> LUT_max_val)"
proof -
  have res: "0 \<le> res" "res < 2 ^ 52" using pow2_bits[OF assms(3)] assms(4) by simp_all
  have mv: "0 \<le> LUT_max_val" "LUT_max_val < 2 ^ 52" by (simp_all add: LUT_max_val_def)
  have "\<forall>v \<in> set (generate_sine_lut sn res n). 0 \<le> v \<and> v \<le> res"
    using sine_range[OF res assms(2)] by blast
  moreover have "\<forall>v \<in> set (generate_sawtooth_lut res n). 0 \<le> v \<and> v \<le> res"
    using sawtooth_range[OF res] by blast
  moreover have "\<forall>v \<in> set (generate_triangle_lut res n). 0 \<le> v \<and> v \<le> res"
    using triangle_range[OF res] by blast
  moreover have "\<forall>v \<in> set (LUT_sine sn) \<union> set LUT_saw \<union> set LUT_triangle.
             0 \<le> v \<and> v \<le> LUT_max_val"
    unfolding LUT_arrays
    using sine_range[OF mv assms(2)] sawtooth_range[OF mv] triangle_range[OF mv] by blast
  moreover have "RESOLUTION = 2 ^ 12 - 1" by (simp add: RESOLUTION_def)
  ultimately show ?thesis by (simp add: LUT_arrays)
qed

theorem lut_length_and_range_witness:
  "SAMPLES_PER_WAVEFORM = 3333
   \<and> length (generate_sine_lut (\<lambda>t. 0) RESOLUTION SAMPLES_PER_WAVEFORM) = 3333
   \<and> length (generate_sawtooth_lut RESOLUTION SAMPLES_PER_WAVEFORM) = 3333
   \<and> length (generate_triangle_lut RESOLUTION SAMPLES_PER_WAVEFORM) = 3333
   \<and> list_all (\<lambda>v. 0 \<le> v \<and> v \<le> 4095)
         (generate_sine_lut (\<lambda>t. 0) RESOLUTION SAMPLES_PER_WAVEFORM)
   \<and> list_all (\<lambda>v. 0 \<le> v \<and> v \<le> 4095)
         (generate_sawtooth_lut RESOLUTION SAMPLES_PER_WAVEFORM)
   \<and> list_all (\<lambda>v. 0 \<le> v \<and> v \<le> 4095)
         (generate_triangle_lut RESOLUTION SAMPLES_PER_WAVEFORM)"
proof -
  have n: "SAMPLES_PER_WAVEFORM = 3333"
    by (simp add: SAMPLES_PER_WAVEFORM_def TOTAL_SAMPLES_def NUM_WAVEFORMS_def)
  show ?thesis
    using lut_length_and_range[of SAMPLES_PER_WAVEFORM "\<lambda>t. 0" 12 RESOLUTION]
    by (simp add: n RESOLUTION_def list_all_iff)
qed

text \<open>
  C5, as amended. For every sample count \<open>n > 0\<close> the sawtooth table of generate.py starts
  with 0 and never decreases; it is strictly increasing whenever \<open>n\<close> is at most the
  resolution 4095, since then every step of the ramp is at least one. So is the sawtooth
  array of generate_LUT_vals.py, built for 128 samples.
\<close>

theorem sawtooth_increasing:
  assumes "0 < n"
  shows "generate_sawtooth_lut RESOLUTION n ! 0 = 0
       \<and> sorted (generate_sawtooth_lut RESOLUTION n)
       \<and> (int n \<le> RESOLUTION \<longrightarrow> sorted_wrt (<) (generate_sawtooth_lut RESOLUTION n))
       \<and> LUT_saw ! 0 = 0 \<and> sorted_wrt (<) LUT_saw"
proof -
  have res: "0 \<le> RESOLUTION" "RESOLUTION < 2 ^ 52" by (simp_all add: RESOLUTION_def)
  have mv: "0 \<le> LUT_max_val" "LUT_max_val < 2 ^ 52" "int LUT_N \<le> LUT_max_val" "0 < LUT_N"
    by (simp_all add: LUT_max_val_def LUT_N_def)
  have "generate_sawtooth_lut RESOLUTION n ! 0 = 0" using res assms by (rule sawtooth_first)
  moreover have "sorted (generate_sawtooth_lut RESOLUTION n)" using res by (rule sawtooth_sorted)
  moreover have "int n \<le> RESOLUTION \<Longrightarrow> sorted_wrt (<) (generate_sawtooth_lut RESOLUTION n)"
    using res by (rule sawtooth_strict)
  moreover have "LUT_saw ! 0 = 0" unfolding LUT_arrays using mv(1,2,4) by (rule sawtooth_first)
  moreover have "sorted_wrt (<) LUT_saw" unfolding LUT_arrays using mv(1,2,3) by (rule sawtooth_strict)
  ultimately show ?thesis by blast
qed

theorem sawtooth_increasing_witness:
  "generate_sawtooth_lut RESOLUTION 3333 ! 0 = 0
   \<and> sorted (generate_sawtooth_lut RESOLUTION 3333)
   \<and> sorted_wrt (<) (generate_sawtooth_lut RESOLUTION 3333)"
  using sawtooth_increasing[of 3333] by (simp add: RESOLUTION_def)

text \<open>
  C5 as stated fails for more samples than levels: with 4096 samples the step of the ramp is
  4095/4096, and the first two entries are both 0.
\<close>

theorem sawtooth_counterexample:
  "generate_sawtooth_lut RESOLUTION 4096 ! 0 = 0
   \<and> generate_sawtooth_lut RESOLUTION 4096 ! 1 = 0
   \<and> \<not> generate_sawtooth_lut RESOLUTION 4096 ! 0 < generate_sawtooth_lut RESOLUTION 4096 ! 1"
proof -
  have res: "0 \<le> RESOLUTION" "RESOLUTION < 2 ^ 52" by (simp_all add: RESOLUTION_def)
  have b: "astype_int (f64 (f64 1 * f64 (4095 / f64 4096))) = 0"
    by code_simp
  have "generate_sawtooth_lut RESOLUTION 4096 ! 0 = 0"
    using res by (rule sawtooth_first) simp
  moreover have "generate_sawtooth_lut RESOLUTION 4096 ! 1 = 0"
    using sawtooth_nth[OF res, of 1 4096] b by (simp add: RESOLUTION_def)
  ultimately show ?thesis by simp
qed

text \<open>
  C6. For every sample count \<open>n\<close> the triangle table of generate.py is the rising ramp
  \<^verbatim>\<open>linspace(0, R, n // 2)\<close> followed by the falling ramp \<^verbatim>\<open>linspace(R, 0, n - n // 2)\<close>,
  so the falling part takes the extra sample of an odd \<open>n\<close>; the first part never decreases,
  the second never increases, no entry exceeds \<open>R = 4095\<close>, and for \<open>n > 0\<close> the entry at
  index \<open>n div 2\<close>, the first of the falling part, is the peak \<open>R\<close> itself.
\<close>

theorem triangle_rises_then_falls:
  "take (n div 2) (generate_triangle_lut RESOLUTION n)
     = map astype_int (linspace 0 (of_int RESOLUTION) (n div 2) False)
   \<and> drop (n div 2) (generate_triangle_lut RESOLUTION n)
     = map astype_int (linspace (of_int RESOLUTION) 0 (n - n div 2) False)
   \<and> length (take (n div 2) (generate_triangle_lut RESOLUTION n)) = n div 2
   \<and> length (drop (n div 2) (generate_triangle_lut RESOLUTION n)) = n - n div 2
   \<and> sorted (take (n div 2) (generate_triangle_lut RESOLUTION n))
   \<and> sorted (rev (drop (n div 2) (generate_triangle_lut RESOLUTION n)))
   \<and> (\<forall>v \<in> set (generate_triangle_lut RESOLUTION n). 0 \<le> v \<and> v \<le> RESOLUTION)
   \<and> (0 < n \<longrightarrow> generate_triangle_lut RESOLUTION n ! (n div 2) = RESOLUTION)"
proof -
  have res: "0 \<le> RESOLUTION" "RESOLUTION < 2 ^ 52" by (simp_all add: RESOLUTION_def)
  have "sorted (take (n div 2) (generate_triangle_lut RESOLUTION n))"
    unfolding triangle_halves using res by (rule rising_sorted)
  moreover have "sorted (rev (drop (n div 2) (generate_triangle_lut RESOLUTION n)))"
    unfolding triangle_halves using res by (rule falling_sorted)
  moreover have "\<forall>v \<in> set (generate_triangle_lut RESOLUTION n). 0 \<le> v \<and> v \<le> RESOLUTION"
    using triangle_range[OF res] by blast
  moreover have "0 < n \<Longrightarrow> generate_triangle_lut RESOLUTION n ! (n div 2) = RESOLUTION"
    using res by (rule triangle_peak)
  ultimately show ?thesis by (simp add: triangle_halves)
qed

theorem triangle_rises_then_falls_witness:
  "length (take (7 div 2) (generate_triangle_lut RESOLUTION 7)) = 3
   \<and> length (drop (7 div 2) (generate_triangle_lut RESOLUTION 7)) = 4
   \<and> sorted (take (7 div 2) (generate_triangle_lut RESOLUTION 7))
   \<and> sorted (rev (drop (7 div 2) (generate_triangle_lut RESOLUTION 7)))
   \<and> generate_triangle_lut RESOLUTION 7 ! 3 = 4095
   \<and> list_all (\<lambda>v. 0 \<le> v \<and> v \<le> 4095) (generate_triangle_lut RESOLUTION 7)"
proof -
  from triangle_rises_then_falls[of 7]
  have l: "length (take (7 div 2) (generate_triangle_lut RESOLUTION 7)) = 7 div 2"
      "length (drop (7 div 2) (generate_triangle_lut RESOLUTION 7)) = 7 - 7 div 2"
    and s: "sorted (take (7 div 2) (generate_triangle_lut RESOLUTION 7))"
      "sorted (rev (drop (7 div 2) (generate_triangle_lut RESOLUTION 7)))"
    and r: "\<forall>v \<in> set (generate_triangle_lut RESOLUTION 7). 0 \<le> v \<and> v \<le> RESOLUTION"
    and p: "0 < (7 :: nat) \<longrightarrow> generate_triangle_lut RESOLUTION 7 ! (7 div 2) = RESOLUTION"
    by blast+
  have "generate_triangle_lut RESOLUTION 7 ! 3 = 4095" using p by (simp add: RESOLUTION_def)
  moreover have "list_all (\<lambda>v. 0 \<le> v \<and> v \<le> 4095) (generate_triangle_lut RESOLUTION 7)"
    using r by (simp add: RESOLUTION_def list_all_iff)
  ultimately show ?thesis using l s by simp
qed

text \<open>
  C9. With four samples and the resolution 15 the sawtooth table is \<open>[0, 3, 7, 11]\<close>: the
  ramp is \<open>[0, 3.75, 7.5, 11.25]\<close> and the conversion to integers drops the fraction, as it
  does for every non-negative value. The sine is sampled at 0 and at the doubles nearest to
  \<open>\<pi>/2\<close>, \<open>\<pi>\<close> and \<open>3\<pi>/2\<close>; when the library sine returns there 0, 1, a value within 1/16
  of 0, and -1, the sine table is \<open>[7, 15, 7, 0]\<close>.
\<close>

theorem four_samples_at_resolution_15:
  assumes "sn 0 = 0" and "sn (np_pi / 2) = 1" and "\<bar>sn np_pi\<bar> \<le> 1 / 16"
    and "sn (3 * np_pi / 2) = - 1"
  shows "generate_sawtooth_lut 15 4 = [0, 3, 7, 11]
       \<and> linspace 0 15 4 False = [0, 15 / 4, 15 / 2, 45 / 4]
       \<and> linspace 0 (f64 (2 * np_pi)) 4 False = [0, np_pi / 2, np_pi, 3 * np_pi / 2]
       \<and> generate_sine_lut sn 15 4 = [7, 15, 7, 0]
       \<and> (0 \<le> x \<and> x < 2 ^ 63 \<longrightarrow> astype_int x = \<lfloor>x\<rfloor>)"
proof -
  have saw: "generate_sawtooth_lut 15 4 = [0, 3, 7, 11]" by code_simp
  have ramp: "linspace 0 15 4 False = [0, 15 / 4, 15 / 2, 45 / 4]" by code_simp
  have angles: "linspace 0 (f64 (2 * np_pi)) 4 False = [0, np_pi / 2, np_pi, 3 * np_pi / 2]"
    by code_simp
  have g0: "astype_int (f64 (f64 (f64 (0 + 1) / 2) * f64 (of_int 15))) = 7" by code_simp
  have g1: "astype_int (f64 (f64 (f64 (1 + 1) / 2) * f64 (of_int 15))) = 15" by code_simp
  have g3: "astype_int (f64 (f64 (f64 (- 1 + 1) / 2) * f64 (of_int 15))) = 0" by code_simp
  have g2: "astype_int (f64 (f64 (f64 (sn np_pi + 1) / 2) * f64 (of_int 15))) = 7"
  proof -
    define a where "a = f64 (sn np_pi + 1)"
    define b where "b = f64 (a / 2)"
    define c where "c = f64 (b * 15)"
    have e: "f64 (15 / 16) = 15 / 16" "f64 (17 / 16) = 17 / 16" "f64 (15 / 32) = 15 / 32"
      "f64 (17 / 32) = 17 / 32" "f64 (225 / 32) = 225 / 32" "f64 (255 / 32) = 255 / 32"
      "f64 15 = 15"
      by code_simp+
    have s: "15 / 16 \<le> sn np_pi + 1" "sn np_pi + 1 \<le> 17 / 16" using assms(3) by linarith+
    have a: "15 / 16 \<le> a" "a \<le> 17 / 16"
      using f64_mono[OF s(1)] f64_mono[OF s(2)] unfolding a_def e by simp_all
    have "15 / 32 \<le> a / 2" "a / 2 \<le> 17 / 32" using a by simp_all
    then have b: "15 / 32 \<le> b" "b \<le> 17 / 32"
      using f64_mono[of "15 / 32" "a / 2"] f64_mono[of "a / 2" "17 / 32"] unfolding b_def e
      by simp_all
    have "225 / 32 \<le> b * 15" "b * 15 \<le> 255 / 32" using b by simp_all
    then have c: "225 / 32 \<le> c" "c \<le> 255 / 32"
      using f64_mono[of "225 / 32" "b * 15"] f64_mono[of "b * 15" "255 / 32"] unfolding c_def e
      by simp_all
    have "\<lfloor>c\<rfloor> = 7" using c by (intro floor_unique) simp_all
    moreover have "0 \<le> c" using c(1) by simp
    ultimately have "astype_int c = 7" by (simp add: astype_int_def trunc_def)
    then show ?thesis unfolding c_def b_def a_def by (simp add: e(7))
  qed
  have sine: "generate_sine_lut sn 15 4 = [7, 15, 7, 0]"
    unfolding generate_sine_lut_def Let_def angles
    using g0 g1 g2 g3 by (simp add: assms(1,2,4))
  have tr: "astype_int x = \<lfloor>x\<rfloor>" if "0 \<le> x" "x < 2 ^ 63"
  proof -
    have "\<lfloor>x\<rfloor> < 2 ^ 63" using that(2) by (simp add: floor_less_iff)
    moreover have "- (2 ^ 63) \<le> \<lfloor>x\<rfloor>"
    proof -
      have "(0 :: int) \<le> \<lfloor>x\<rfloor>" using that(1) by simp
      then show ?thesis by (rule order_trans[rotated]) simp
    qed
    ultimately show ?thesis using that(1) by (simp add: astype_int_def trunc_def)
  qed
  show ?thesis using saw ramp angles sine tr by blast
qed

theorem four_samples_at_resolution_15_witness:
  "generate_sawtooth_lut 15 4 = [0, 3, 7, 11]
   \<and> generate_sine_lut (\<lambda>t. if t = np_pi / 2 then 1 else if t = 3 * np_pi / 2 then - 1 else 0)
         15 4 = [7, 15, 7, 0]"
  using four_samples_at_resolution_15
          [of "\<lambda>t. if t = np_pi / 2 then 1 else if t = 3 * np_pi / 2 then - 1 else 0"]
  by (simp add: np_pi_def)

section \<open>The claims about resampling and about failing sources\<close>

text \<open>
  C7. A signal of at least one sample, resampled to a target length \<open>n\<close> of at least one,
  comes back with exactly \<open>n\<close> samples and without error, in both scripts:
  wav_LUT_vals.py decimates by the step \<open>L div n\<close> when the signal is longer and tiles it
  when it is shorter; generate.py picks \<open>n\<close> indices when the signal is longer and
  interpolates otherwise. For generate.py the signal has at most \<open>2 ^ 53\<close> samples, so that
  its length is a double; no array in memory is longer.
\<close>

theorem resample_returns_target_length:
  assumes "audio_data \<noteq> []" and "normalized \<noteq> []" and "0 < n"
    and "length normalized \<le> 2 ^ 53"
  shows "(\<exists>ys. resample n audio_data = Inr ys \<and> length ys = n)
       \<and> (n < length audio_data \<longrightarrow>
            resample n audio_data
              = Inr (take n (stride (length audio_data div n) audio_data)))
       \<and> (length audio_data < n \<longrightarrow>
            (\<exists>tiled. tiled = concat (replicate (n div length audio_data) audio_data)
               \<and> resample n audio_data
                   = Inr (tiled @ take (n mod length audio_data) tiled)))
       \<and> (\<exists>ys. gen_resample normalized n = Inr ys \<and> length ys = n)"
proof (intro conjI impI)
  show "\<exists>ys. resample n audio_data = Inr ys \<and> length ys = n"
    using assms(1,3) by (rule resample_length)
  show "resample n audio_data = Inr (take n (stride (length audio_data div n) audio_data))"
    if "n < length audio_data"
    using that assms(3) by (simp add: resample_def Let_def)
  show "\<exists>tiled. tiled = concat (replicate (n div length audio_data) audio_data)
          \<and> resample n audio_data = Inr (tiled @ take (n mod length audio_data) tiled)"
    if "length audio_data < n"
    using that assms(1) by (simp add: resample_def Let_def)
  show "\<exists>ys. gen_resample normalized n = Inr ys \<and> length ys = n"
  proof (cases "n < length normalized")
    case True
    with assms(3) show ?thesis using assms(4) by (intro gen_resample_down)
  next
    case False
    then have "length normalized \<le> n" by simp
    with assms(2) show ?thesis by (rule gen_resample_up)
  qed
qed

theorem resample_returns_target_length_witness:
  "(\<exists>ys. resample 3 [1, 2, 3, 4, 5, 6, 7, 8] = Inr ys \<and> length ys = 3)
   \<and> resample 3 [1, 2, 3, 4, 5, 6, 7, 8]
       = Inr (take 3 (stride (length [1, 2, 3, 4, 5, 6, 7, 8 :: rat] div 3)
                        [1, 2, 3, 4, 5, 6, 7, 8]))
   \<and> (\<exists>ys. gen_resample [10, 20, 30] 7 = Inr ys \<and> length ys = 7)"
  using resample_returns_target_length[of "[1, 2, 3, 4, 5, 6, 7, 8]" "[10, 20, 30]" 7]
    resample_returns_target_length[of "[1, 2, 3, 4, 5, 6, 7, 8]" "[10, 20, 30]" 3]
  by simp

text \<open>
  C8. Resampling a signal to its own length returns it unchanged: in wav_LUT_vals.py neither
  branch is taken; in generate.py the interpolation is asked at the sample points
  themselves and returns the stored values. For generate.py the signal is not empty (the
  target length is at least one), its length is at most \<open>2 ^ 53\<close> and its values are 64-bit
  integers that a double holds exactly; every signal that the normalisation of the script
  hands to the resampling has such values.
\<close>

theorem resample_to_own_length_is_identity:
  assumes "normalized \<noteq> []" and "length normalized \<le> 2 ^ 53"
    and "\<forall>v \<in> set normalized.
           f64 (of_int v) = of_int v \<and> - (2 ^ 63) \<le> v \<and> v < 2 ^ 63"
    and "channel \<noteq> []" and "length channel \<le> 2 ^ 53"
  shows "resample (length audio_data) audio_data = Inr audio_data
       \<and> gen_resample normalized (length normalized) = Inr normalized
       \<and> gen_resample (map (normalize_sample res d) channel) (length channel)
           = Inr (map (normalize_sample res d) channel)"
proof (intro conjI)
  show "resample (length audio_data) audio_data = Inr audio_data"
    by (simp add: resample_def)
  show "gen_resample normalized (length normalized) = Inr normalized"
    using assms(1,2,3) by (rule gen_resample_same)
  have "gen_resample (map (normalize_sample res d) channel)
          (length (map (normalize_sample res d) channel))
        = Inr (map (normalize_sample res d) channel)"
    using assms(4,5) normalize_sample_is_double[of res d]
    by (intro gen_resample_same) auto
  then show "gen_resample (map (normalize_sample res d) channel) (length channel)
               = Inr (map (normalize_sample res d) channel)"
    by simp
qed

theorem resample_to_own_length_is_identity_witness:
  "resample (length [1, 2, 3 :: rat]) [1, 2, 3] = Inr [1, 2, 3]
   \<and> gen_resample [10, 20, 30] (length [10, 20, 30 :: int]) = Inr [10, 20, 30]
   \<and> gen_resample (map (normalize_sample RESOLUTION Int16) [0, 5]) (length [0, 5 :: rat])
       = Inr (map (normalize_sample RESOLUTION Int16) [0, 5])"
proof -
  have d: "f64 10 = 10" "f64 20 = 20" "f64 30 = 30"
    using f64_of_int[of 10] f64_of_int[of 20] f64_of_int[of 30] by simp_all
  show ?thesis
    using resample_to_own_length_is_identity
            [of "[10, 20, 30]" "[0, 5]" "[1, 2, 3]" RESOLUTION Int16]
    by (simp add: d)
qed

text \<open>
  C4. In generate.py a source that cannot be read or decoded does not stop the run: any
  exception of the body makes \<^verbatim>\<open>process_wav_file\<close> print the error and return the sine
  table of the same target length, with values between 0 and \<open>R\<close>, and the rate 44100; and
  the loop returns one entry per source, each computed from that source alone, so that a
  failing source leaves the output of every other source as it is.
\<close>

theorem failing_source_is_isolated:
  assumes "\<forall>t. - 1 \<le> sn t \<and> sn t \<le> 1"
  shows "process_wav_file sn RESOLUTION (Inl e) filepath n
           = ([Error_processing filepath e, Using_placeholder],
              generate_sine_lut sn RESOLUTION n, 44100)
       \<and> (snd (gen_body RESOLUTION opened filepath n) = Inl e \<longrightarrow>
            process_wav_file sn RESOLUTION opened filepath n
              = (fst (gen_body RESOLUTION opened filepath n)
                   @ [Error_processing filepath e, Using_placeholder],
                 generate_sine_lut sn RESOLUTION n, 44100))
       \<and> length (generate_sine_lut sn RESOLUTION n) = n
       \<and> (\<forall>v \<in> set (generate_sine_lut sn RESOLUTION n). 0 \<le> v \<and> v \<le> RESOLUTION)
       \<and> snd (audio_luts sn RESOLUTION fs n sources)
           = map (\<lambda>(path, name).
                    (fst (snd (process_wav_file sn RESOLUTION (fs path) path n)), name,
                     snd (snd (process_wav_file sn RESOLUTION (fs path) path n)))) sources"
proof -
  have res: "0 \<le> RESOLUTION" "RESOLUTION < 2 ^ 52" by (simp_all add: RESOLUTION_def)
  have a: "process_wav_file sn RESOLUTION (Inl e) filepath n
             = ([Error_processing filepath e, Using_placeholder],
                generate_sine_lut sn RESOLUTION n, 44100)"
    by (simp add: process_wav_file_def gen_body_def)
  have b: "process_wav_file sn RESOLUTION opened filepath n
             = (fst (gen_body RESOLUTION opened filepath n)
                  @ [Error_processing filepath e, Using_placeholder],
                generate_sine_lut sn RESOLUTION n, 44100)"
    if "snd (gen_body RESOLUTION opened filepath n) = Inl e"
    using that by (cases "gen_body RESOLUTION opened filepath n")
      (simp add: process_wav_file_def)
  have c: "\<forall>v \<in> set (generate_sine_lut sn RESOLUTION n). 0 \<le> v \<and> v \<le> RESOLUTION"
    using sine_range[OF res assms] by blast
  have d: "snd (audio_luts sn RESOLUTION fs n sources)
             = map (\<lambda>(path, name).
                      (fst (snd (process_wav_file sn RESOLUTION (fs path) path n)), name,
                       snd (snd (process_wav_file sn RESOLUTION (fs path) path n)))) sources"
    by (induction sources) (auto split: prod.splits)
  show ?thesis using a b c d by simp
qed

theorem failing_source_is_isolated_witness:
  "process_wav_file (\<lambda>t. 0) RESOLUTION (Inl SourceUnavailable) ''piano.wav'' 3333
     = ([Error_processing ''piano.wav'' SourceUnavailable, Using_placeholder],
        generate_sine_lut (\<lambda>t. 0) RESOLUTION 3333, 44100)
   \<and> length (generate_sine_lut (\<lambda>t. 0) RESOLUTION 3333) = 3333
   \<and> list_all (\<lambda>v. 0 \<le> v \<and> v \<le> 4095) (generate_sine_lut (\<lambda>t. 0) RESOLUTION 3333)"
  using failing_source_is_isolated[of "\<lambda>t. 0" SourceUnavailable "''piano.wav''" 3333]
  by (simp add: RESOLUTION_def list_all_iff)

end
